theory Spec2Isabelle
  imports Complex_Main "HOL-Library.List_Lexorder"
begin

section \<open>Version identifiers\<close>

text \<open>
  Version identifiers are Python strings such as \<open>v1.2.0\<close>. The controller never keeps
  a parsed form: every comparison re-parses the identifier with
  \<^verbatim>\<open>[int(x) for x in v['version_id'].lstrip('v').split('.')]\<close>
  and orders the resulting integer lists with Python's list comparison, which is the
  lexicographic order of \<open>HOL-Library.List_Lexorder\<close> (a proper prefix is smaller).
\<close>

datatype error =
    FileNotFoundError
  | VersionNotFoundError
  | VersionIntegrityError
  | ValueError
  | UnicodeDecodeError
  | OSError
  | IndexError

text \<open>Characters are read through their code point (a \<open>char\<close> holds 0..255).\<close>

definition is_digit :: "char \<Rightarrow> bool" where
  "is_digit c = (48 \<le> (of_char c :: nat) \<and> (of_char c :: nat) \<le> 57)"

definition digit_val :: "char \<Rightarrow> nat" where
  "digit_val c = (of_char c :: nat) - 48"

definition digit_chr :: "nat \<Rightarrow> char" where
  "digit_chr d = char_of (48 + d)"

text \<open>Whitespace that \<^verbatim>\<open>int()\<close> strips from both ends of its argument.\<close>

definition is_space :: "char \<Rightarrow> bool" where
  "is_space c = (let n = (of_char c :: nat) in
     (9 \<le> n \<and> n \<le> 13) \<or> (28 \<le> n \<and> n \<le> 32) \<or> n = 133 \<or> n = 160)"

definition strip :: "string \<Rightarrow> string" where
  "strip s = rev (dropWhile is_space (rev (dropWhile is_space s)))"

text \<open>
  The digits of a decimal literal; a single underscore may stand between two digits.
\<close>

fun digits_val :: "nat \<Rightarrow> string \<Rightarrow> nat option" where
  "digits_val acc [] = Some acc"
| "digits_val acc (c # cs) =
     (if is_digit c then digits_val (acc * 10 + digit_val c) cs
      else if c = CHR ''_'' then
        (case cs of [] \<Rightarrow> None
         | d # _ \<Rightarrow> if is_digit d then digits_val acc cs else None)
      else None)"

definition literal_val :: "string \<Rightarrow> nat option" where
  "literal_val s = (case s of [] \<Rightarrow> None
     | c # _ \<Rightarrow> if is_digit c then digits_val 0 s else None)"

text \<open>
  \<^verbatim>\<open>int(x)\<close> on a string, base ten; a string that is no literal raises ValueError.
  Strings are over the code points below 256, and the interpreter's limit on the number
  of digits of a literal is left out.
\<close>

definition py_int :: "string \<Rightarrow> error + int" where
  "py_int s =
     (case strip s of
        [] \<Rightarrow> Inl ValueError
      | c # r \<Rightarrow>
          if c = CHR ''-'' then
            (case literal_val r of None \<Rightarrow> Inl ValueError | Some n \<Rightarrow> Inr (- int n))
          else if c = CHR ''+'' then
            (case literal_val r of None \<Rightarrow> Inl ValueError | Some n \<Rightarrow> Inr (int n))
          else
            (case literal_val (c # r) of None \<Rightarrow> Inl ValueError | Some n \<Rightarrow> Inr (int n)))"

text \<open>\<^verbatim>\<open>str(n)\<close> for an integer, as the f-strings of the source format it.\<close>

fun str_nat :: "nat \<Rightarrow> string" where
  "str_nat n = (if n < 10 then [digit_chr n] else str_nat (n div 10) @ [digit_chr (n mod 10)])"

declare str_nat.simps [simp del]

definition str_int :: "int \<Rightarrow> string" where
  "str_int i = (if i < 0 then CHR ''-'' # str_nat (nat (- i)) else str_nat (nat i))"

text \<open>\<^verbatim>\<open>s.split(c)\<close>: always at least one piece.\<close>

fun split_on :: "char \<Rightarrow> string \<Rightarrow> string list" where
  "split_on c [] = [[]]"
| "split_on c (x # xs) =
     (if x = c then [] # split_on c xs
      else (case split_on c xs of [] \<Rightarrow> [[x]] | p # ps \<Rightarrow> (x # p) # ps))"

definition lstrip_v :: "string \<Rightarrow> string" where
  "lstrip_v s = dropWhile (\<lambda>c. c = CHR ''v'') s"

text \<open>A list comprehension over \<^verbatim>\<open>int\<close>: the first failure raises.\<close>

fun int_all :: "string list \<Rightarrow> error + int list" where
  "int_all [] = Inr []"
| "int_all (p # ps) =
     (case py_int p of Inl e \<Rightarrow> Inl e
      | Inr n \<Rightarrow> (case int_all ps of Inl e \<Rightarrow> Inl e | Inr ns \<Rightarrow> Inr (n # ns)))"

text \<open>The sort key \<^verbatim>\<open>[int(x) for x in vid.lstrip('v').split('.')]\<close>.\<close>

definition version_key :: "string \<Rightarrow> error + int list" where
  "version_key vid = int_all (split_on CHR ''.'' (lstrip_v vid))"

text \<open>\<^verbatim>\<open>f"v{a}.{b}.{c}"\<close>\<close>

definition fmt_version :: "int \<Rightarrow> int \<Rightarrow> int \<Rightarrow> string" where
  "fmt_version a b c = CHR ''v'' # str_int a @ ''.'' @ str_int b @ ''.'' @ str_int c"

text \<open>
  \<^verbatim>\<open>_increment_version\<close>: pads the parsed parts with zeros to three, keeps the first
  three, and bumps one of them; any \<open>version_type\<close> other than \<open>major\<close> and
  \<open>minor\<close> is a patch.
\<close>

definition pad3 :: "int list \<Rightarrow> int list" where
  "pad3 parts = parts @ replicate (3 - length parts) 0"

definition increment_version :: "string \<Rightarrow> string \<Rightarrow> error + string" where
  "increment_version version version_type =
     (case version_key version of
        Inl e \<Rightarrow> Inl e
      | Inr parts \<Rightarrow>
          (let major = pad3 parts ! 0; minor = pad3 parts ! 1; patch = pad3 parts ! 2 in
           if version_type = ''major'' then Inr (fmt_version (major + 1) 0 0)
           else if version_type = ''minor'' then Inr (fmt_version major (minor + 1) 0)
           else Inr (fmt_version major minor (patch + 1))))"

section \<open>The ledger and the controller's world\<close>

text \<open>
  A version is one dictionary of the \<open>versions\<close> list of the ledger file (its key
  \<open>file\<close> is the field \<open>file_path\<close> here), a history entry one dictionary of its
  \<open>history\<close> list. Timestamps are readings of a clock.
  The \<open>history\<close> key of the ledger may be absent (\<open>None\<close>): \<^verbatim>\<open>_add_history\<close>
  creates it on demand.
\<close>

record version =
  version_id :: string
  timestamp :: nat
  file_path :: string
  hash :: string
  description :: string
  active :: bool
  stable :: bool
  compatibility :: "string list"

record history_entry =
  action :: string
  entry_version_id :: string
  entry_timestamp :: nat
  user :: string

record ledger =
  versions :: "version list"
  history :: "history_entry list option"

text \<open>
  What \<^verbatim>\<open>open(version_file, 'r', encoding='utf-8')\<close> followed by \<^verbatim>\<open>json.load\<close> makes
  of the bytes of the ledger file: bytes that are not UTF-8 raise UnicodeDecodeError while
  they are read, text that is not JSON raises JSONDecodeError, and a JSON document is
  returned as the ledger it holds.
\<close>

datatype payload = Undecodable | Malformed | Document ledger

text \<open>
  The controller object together with the part of the file system it touches:
  \<^item> \<open>mem\<close> is \<^verbatim>\<open>self.versions\<close>;
  \<^item> \<open>live\<close> maps a repository-relative path to the content of the artifact there;
  \<^item> \<open>snapshots\<close> and \<open>archived\<close> are the files of \<^verbatim>\<open>version_backups/\<close>, by name;
  \<^item> \<open>version_file\<close> is \<^verbatim>\<open>standards_versions.json\<close>, \<open>None\<close> when it does not exist;
  \<^item> \<open>save_ok\<close>, \<open>backup_ok\<close>, \<open>restore_ok\<close> say whether the next write of the ledger
    file, of a file of the backup directory (by name), of a live artifact (by path)
    goes through or raises an I/O error; a write that raises is taken to be refused
    before it changes the file;
  \<^item> \<open>clock\<close> is what \<^verbatim>\<open>datetime.now()\<close> reads, \<open>login\<close> what \<^verbatim>\<open>os.getlogin()\<close>
    returns (\<open>None\<close> when it raises).
  Artifact paths are taken to be distinct from the ledger file and the backup directory.
\<close>

record control =
  mem :: ledger
  live :: "string \<rightharpoonup> string"
  snapshots :: "string \<rightharpoonup> string"
  archived :: "string \<rightharpoonup> payload"
  version_file :: "payload option"
  save_ok :: bool
  backup_ok :: "string \<Rightarrow> bool"
  restore_ok :: "string \<Rightarrow> bool"
  clock :: nat
  login :: "string option"

type_synonym 'a result = "(error + 'a) \<times> control"

definition empty_ledger :: ledger where
  "empty_ledger = \<lparr>versions = [], history = Some []\<rparr>"

subsection \<open>Small helpers of the class\<close>

definition get_current_user :: "control \<Rightarrow> string" where
  "get_current_user s = (case login s of None \<Rightarrow> ''unknown'' | Some u \<Rightarrow> u)"

fun find_version :: "version list \<Rightarrow> string \<Rightarrow> version option" where
  "find_version [] vid = None"
| "find_version (v # vs) vid = (if version_id v = vid then Some v else find_version vs vid)"

definition add_history :: "history_entry \<Rightarrow> ledger \<Rightarrow> ledger" where
  "add_history entry l =
     l\<lparr>history := Some ((case history l of None \<Rightarrow> [] | Some h \<Rightarrow> h) @ [entry])\<rparr>"

definition record_action :: "string \<Rightarrow> string \<Rightarrow> control \<Rightarrow> control" where
  "record_action act vid s =
     s\<lparr>mem := add_history
        \<lparr>action = act, entry_version_id = vid, entry_timestamp = clock s,
         user = get_current_user s\<rparr> (mem s)\<rparr>"

text \<open>
  \<^verbatim>\<open>_save_versions\<close>: the whole ledger is rewritten; an exception while writing is
  logged inside the method and goes no further.
\<close>

definition save_versions :: "control \<Rightarrow> control" where
  "save_versions s = (if save_ok s then s\<lparr>version_file := Some (Document (mem s))\<rparr> else s)"

text \<open>\<^verbatim>\<open>Path(p).name\<close>: the last component of the path.\<close>

definition basename :: "string \<Rightarrow> string" where
  "basename p = rev (takeWhile (\<lambda>c. c \<noteq> CHR ''/'') (rev p))"

definition backup_name :: "string \<Rightarrow> string \<Rightarrow> string" where
  "backup_name path vid = basename path @ ''.'' @ vid"

text \<open>
  \<^verbatim>\<open>_backup_version\<close>: a missing source is logged and skipped, a failing copy is
  logged inside the method.
\<close>

definition backup_version :: "string \<Rightarrow> string \<Rightarrow> control \<Rightarrow> control" where
  "backup_version path vid s =
     (case live s path of
        None \<Rightarrow> s
      | Some content \<Rightarrow>
          if backup_ok s (backup_name path vid)
          then s\<lparr>snapshots := (snapshots s)(backup_name path vid \<mapsto> content)\<rparr>
          else s)"

text \<open>\<^verbatim>\<open>_restore_from_backup\<close>: the flag it returns, and the world after it.\<close>

definition restore_from_backup :: "string \<Rightarrow> control \<Rightarrow> bool \<times> control" where
  "restore_from_backup vid s =
     (case find_version (versions (mem s)) vid of
        None \<Rightarrow> (False, s)
      | Some v \<Rightarrow>
          (case snapshots s (backup_name (file_path v) vid) of
             None \<Rightarrow> (False, s)
           | Some content \<Rightarrow>
               if restore_ok s (file_path v)
               then (True, s\<lparr>live := (live s)(file_path v \<mapsto> content)\<rparr>)
               else (False, s)))"

text \<open>
  \<^verbatim>\<open>_verify_version_integrity\<close>; \<open>H\<close> stands for
  \<^verbatim>\<open>hashlib.sha256(bytes).hexdigest()\<close>, which the repository takes from the standard library.
\<close>

definition verify_version_integrity :: "(string \<Rightarrow> string) \<Rightarrow> control \<Rightarrow> version \<Rightarrow> bool" where
  "verify_version_integrity H s v =
     (case live s (file_path v) of
        None \<Rightarrow> False
      | Some content \<Rightarrow> if H content \<noteq> hash v then False else True)"

subsection \<open>Sorting by version key\<close>

text \<open>
  \<^verbatim>\<open>sorted(vs, key=..., reverse=True)\<close> computes every key first (one bad identifier
  raises), then sorts stably in descending order: among equal keys the original order
  is kept, which is what reversing, sorting stably and reversing again gives.
\<close>

fun keyed :: "version list \<Rightarrow> error + (int list \<times> version) list" where
  "keyed [] = Inr []"
| "keyed (v # vs) =
     (case version_key (version_id v) of Inl e \<Rightarrow> Inl e
      | Inr k \<Rightarrow> (case keyed vs of Inl e \<Rightarrow> Inl e | Inr kvs \<Rightarrow> Inr ((k, v) # kvs)))"

definition sorted_desc :: "(int list \<times> version) list \<Rightarrow> (int list \<times> version) list" where
  "sorted_desc kvs = rev (sort_key fst (rev kvs))"

definition newest :: "version list \<Rightarrow> error + version" where
  "newest vs =
     (case keyed vs of Inl e \<Rightarrow> Inl e
      | Inr kvs \<Rightarrow> (case sorted_desc kvs of [] \<Rightarrow> Inl IndexError | kv # _ \<Rightarrow> Inr (snd kv)))"

definition get_latest_version :: "ledger \<Rightarrow> error + version option" where
  "get_latest_version l =
     (if versions l = [] then Inr None
      else (case newest (versions l) of Inl e \<Rightarrow> Inl e | Inr v \<Rightarrow> Inr (Some v)))"

definition get_stable_versions :: "ledger \<Rightarrow> version list" where
  "get_stable_versions l = filter stable (versions l)"

definition get_active_version :: "ledger \<Rightarrow> version option" where
  "get_active_version l = (case filter active (versions l) of [] \<Rightarrow> None | v # _ \<Rightarrow> Some v)"

section \<open>The operations\<close>

text \<open>
  Every operation returns what the method returns or the exception it raises, and the
  world as the method leaves it; a raise keeps the mutations made before it.
\<close>

definition next_version_id :: "ledger \<Rightarrow> string \<Rightarrow> error + string" where
  "next_version_id l version_type =
     (case get_latest_version l of
        Inl e \<Rightarrow> Inl e
      | Inr None \<Rightarrow> Inr ''v1.0.0''
      | Inr (Some last_version) \<Rightarrow> increment_version (version_id last_version) version_type)"

definition create_version ::
  "(string \<Rightarrow> string) \<Rightarrow> string \<Rightarrow> string \<Rightarrow> string \<Rightarrow> control \<Rightarrow> version result" where
  "create_version H standard_path descr version_type s =
     (case live s standard_path of
        None \<Rightarrow> (Inl FileNotFoundError, s)
      | Some content \<Rightarrow>
          (case next_version_id (mem s) version_type of
             Inl e \<Rightarrow> (Inl e, s)
           | Inr vid \<Rightarrow>
               (let new_version =
                      \<lparr>version_id = vid, timestamp = clock s, file_path = standard_path,
                       hash = H content, description = descr, active = False,
                       stable = False, compatibility = [''v1.0.0'']\<rparr>;
                    s1 = s\<lparr>mem := (mem s)\<lparr>versions := versions (mem s) @ [new_version]\<rparr>\<rparr>;
                    s2 = record_action ''create'' vid s1;
                    s3 = save_versions s2;
                    s4 = backup_version standard_path vid s3
                in (Inr new_version, s4))))"

definition set_active :: "string \<Rightarrow> version list \<Rightarrow> version list" where
  "set_active vid vs = map (\<lambda>v. v\<lparr>active := (version_id v = vid)\<rparr>) vs"

definition activate_version :: "(string \<Rightarrow> string) \<Rightarrow> string \<Rightarrow> control \<Rightarrow> unit result" where
  "activate_version H vid s =
     (case find_version (versions (mem s)) vid of
        None \<Rightarrow> (Inl VersionNotFoundError, s)
      | Some v \<Rightarrow>
          if \<not> verify_version_integrity H s v then (Inl VersionIntegrityError, s)
          else
            (let s1 = s\<lparr>mem := (mem s)\<lparr>versions := set_active vid (versions (mem s))\<rparr>\<rparr>;
                 s2 = record_action ''activate'' vid s1;
                 s3 = save_versions s2
             in (Inr (), s3)))"

text \<open>\<^verbatim>\<open>version['stable'] = True\<close> on the dictionary that \<^verbatim>\<open>_find_version\<close> returned.\<close>

fun set_stable :: "string \<Rightarrow> version list \<Rightarrow> version list" where
  "set_stable vid [] = []"
| "set_stable vid (v # vs) =
     (if version_id v = vid then v\<lparr>stable := True\<rparr> # vs else v # set_stable vid vs)"

definition mark_as_stable :: "string \<Rightarrow> control \<Rightarrow> unit result" where
  "mark_as_stable vid s =
     (case find_version (versions (mem s)) vid of
        None \<Rightarrow> (Inl VersionNotFoundError, s)
      | Some v \<Rightarrow>
          (let s1 = s\<lparr>mem := (mem s)\<lparr>versions := set_stable vid (versions (mem s))\<rparr>\<rparr>;
               s2 = record_action ''mark_stable'' vid s1;
               s3 = save_versions s2
           in (Inr (), s3)))"

definition rollback_to_version :: "(string \<Rightarrow> string) \<Rightarrow> string \<Rightarrow> control \<Rightarrow> unit result" where
  "rollback_to_version H vid s =
     (case find_version (versions (mem s)) vid of
        None \<Rightarrow> (Inl VersionNotFoundError, s)
      | Some v \<Rightarrow>
          (let (recovered, s1) =
                 (if \<not> verify_version_integrity H s v then restore_from_backup vid s
                  else (True, s))
           in if \<not> recovered then (Inl VersionIntegrityError, s1)
              else
                (case activate_version H vid s1 of
                   (Inl e, s2) \<Rightarrow> (Inl e, s2)
                 | (Inr u, s2) \<Rightarrow> (Inr (), record_action ''rollback'' vid s2))))"

definition rollback_to_last_stable :: "(string \<Rightarrow> string) \<Rightarrow> control \<Rightarrow> string option result" where
  "rollback_to_last_stable H s =
     (let stable_versions = get_stable_versions (mem s) in
      if stable_versions = [] then (Inr None, s)
      else
        (case newest stable_versions of
           Inl e \<Rightarrow> (Inl e, s)
         | Inr latest_stable \<Rightarrow>
             (case rollback_to_version H (version_id latest_stable) s of
                (Inl e, s1) \<Rightarrow> (Inl e, s1)
              | (Inr u, s1) \<Rightarrow> (Inr (Some (version_id latest_stable)), s1))))"

section \<open>The standard library's sequence matcher\<close>

text \<open>
  \<^verbatim>\<open>difflib.SequenceMatcher(None, a, b)\<close>, as the repository calls it: no junk predicate,
  and the automatic heuristic that sets aside the popular elements of a second sequence of
  200 elements or more (those that occur more than \<open>len(b) // 100 + 1\<close> times).
\<close>

definition popular :: "'a list \<Rightarrow> 'a \<Rightarrow> bool" where
  "popular b x = (200 \<le> length b \<and> length b div 100 + 1 < count_list b x)"

text \<open>The length of the longest common prefix whose elements are not set aside.\<close>

fun common_len :: "('a \<Rightarrow> bool) \<Rightarrow> 'a list \<Rightarrow> 'a list \<Rightarrow> nat" where
  "common_len P (x # xs) (y # ys) = (if x = y \<and> \<not> P y then Suc (common_len P xs ys) else 0)"
| "common_len P xs ys = 0"

definition nobody :: "'a \<Rightarrow> bool" where
  "nobody x = False"

text \<open>
  The search of \<^verbatim>\<open>find_longest_match\<close> in a window \<open>xs\<close> of \<open>a\<close> and \<open>ys\<close> of \<open>b\<close>,
  positions counted from the start of the window: of all longest matching blocks the one
  that starts earliest in \<open>xs\<close>, and of those the one that starts earliest in \<open>ys\<close>;
  \<open>(0, 0, 0)\<close> when nothing matches.
\<close>

definition better :: "('a \<Rightarrow> bool) \<Rightarrow> 'a list \<Rightarrow> 'a list \<Rightarrow> nat \<times> nat \<Rightarrow> nat \<times> nat \<times> nat \<Rightarrow> nat \<times> nat \<times> nat" where
  "better P xs ys c best =
     (let k = common_len P (drop (fst c) xs) (drop (snd c) ys)
      in if snd (snd best) < k then (fst c, snd c, k) else best)"

definition longest_plain :: "('a \<Rightarrow> bool) \<Rightarrow> 'a list \<Rightarrow> 'a list \<Rightarrow> nat \<times> nat \<times> nat" where
  "longest_plain P xs ys =
     fold (better P xs ys) (List.product [0..<length xs] [0..<length ys]) (0, 0, 0)"

text \<open>
  \<^verbatim>\<open>find_longest_match\<close>: the block found is then extended to both sides as long as the
  neighbouring elements are equal (they can only be popular ones).
\<close>

definition find_longest_match :: "('a \<Rightarrow> bool) \<Rightarrow> 'a list \<Rightarrow> 'a list \<Rightarrow> nat \<times> nat \<times> nat" where
  "find_longest_match P xs ys =
     (case longest_plain P xs ys of
        (i, j, k) \<Rightarrow>
          (let lead = common_len nobody (rev (take i xs)) (rev (take j ys));
               besti = i - lead; bestj = j - lead; bestsize = k + lead;
               trail = common_len nobody (drop (besti + bestsize) xs) (drop (bestj + bestsize) ys)
           in (besti, bestj, bestsize + trail)))"

lemma common_len_le: "common_len P xs ys \<le> length xs \<and> common_len P xs ys \<le> length ys"
  by (induction P xs ys rule: common_len.induct) auto

lemma better_bounds:
  assumes "fst best + snd (snd best) \<le> length xs" and "fst (snd best) + snd (snd best) \<le> length ys"
    and "fst c \<le> length xs" and "snd c \<le> length ys"
  shows "fst (better P xs ys c best) + snd (snd (better P xs ys c best)) \<le> length xs \<and>
         fst (snd (better P xs ys c best)) + snd (snd (better P xs ys c best)) \<le> length ys"
proof -
  have "common_len P (drop (fst c) xs) (drop (snd c) ys) \<le> length xs - fst c"
       "common_len P (drop (fst c) xs) (drop (snd c) ys) \<le> length ys - snd c"
    using common_len_le [of P "drop (fst c) xs" "drop (snd c) ys"] by simp_all
  with assms show ?thesis by (auto simp: better_def Let_def)
qed

lemma longest_plain_bounds:
  "fst (longest_plain P xs ys) + snd (snd (longest_plain P xs ys)) \<le> length xs \<and>
   fst (snd (longest_plain P xs ys)) + snd (snd (longest_plain P xs ys)) \<le> length ys"
proof -
  let ?I = "\<lambda>best. fst best + snd (snd best) \<le> length xs \<and> fst (snd best) + snd (snd best) \<le> length ys"
  have "?I (fold (better P xs ys) (List.product [0..<length xs] [0..<length ys]) (0, 0, 0))"
  proof (rule fold_invariant [where Q = "\<lambda>c. fst c \<le> length xs \<and> snd c \<le> length ys"])
    fix c assume "c \<in> set (List.product [0..<length xs] [0..<length ys])"
    then show "fst c \<le> length xs \<and> snd c \<le> length ys" by auto
  next
    show "?I (0, 0, 0)" by simp
  next
    fix c best assume "fst c \<le> length xs \<and> snd c \<le> length ys" and "?I best"
    then show "?I (better P xs ys c best)" using better_bounds [of best xs ys c P] by simp
  qed
  then show ?thesis by (simp add: longest_plain_def)
qed

lemma find_longest_match_bounds:
  assumes "find_longest_match P xs ys = (i, j, k)"
  shows "i + k \<le> length xs \<and> j + k \<le> length ys"
proof -
  obtain i0 j0 k0 where l: "longest_plain P xs ys = (i0, j0, k0)"
    by (cases "longest_plain P xs ys") auto
  with longest_plain_bounds [of P xs ys] have b: "i0 + k0 \<le> length xs" "j0 + k0 \<le> length ys"
    by simp_all
  define lead where "lead = common_len nobody (rev (take i0 xs)) (rev (take j0 ys))"
  have bf: "lead \<le> i0" "lead \<le> j0"
    using common_len_le [of nobody "rev (take i0 xs)" "rev (take j0 ys)"] b
    by (simp_all add: lead_def)
  define trail where "trail = common_len nobody (drop (i0 - lead + (k0 + lead)) xs)
      (drop (j0 - lead + (k0 + lead)) ys)"
  have af: "trail \<le> length xs - (i0 + k0)" "trail \<le> length ys - (j0 + k0)"
    using common_len_le [of nobody "drop (i0 - lead + (k0 + lead)) xs"
        "drop (j0 - lead + (k0 + lead)) ys"] bf
    by (simp_all add: trail_def)
  have "find_longest_match P xs ys = (i0 - lead, j0 - lead, k0 + lead + trail)"
    by (simp add: find_longest_match_def l Let_def lead_def trail_def)
  with assms have "i = i0 - lead" "j = j0 - lead" "k = k0 + lead + trail" by simp_all
  with b bf af show ?thesis by arith
qed

text \<open>
  The matching blocks lead they are merged: the longest block of the window, then the
  blocks to its left and to its right, in ascending order (the order
  \<^verbatim>\<open>matching_blocks.sort()\<close> gives). \<open>alo\<close> and \<open>blo\<close> are where the windows start.
\<close>

function blocks :: "('a \<Rightarrow> bool) \<Rightarrow> nat \<Rightarrow> nat \<Rightarrow> 'a list \<Rightarrow> 'a list \<Rightarrow> (nat \<times> nat \<times> nat) list" where
  "blocks P alo blo xs ys =
     (case find_longest_match P xs ys of
        (i, j, k) \<Rightarrow>
          if k = 0 then []
          else
            (if 0 < i \<and> 0 < j then blocks P alo blo (take i xs) (take j ys) else []) @
            [(alo + i, blo + j, k)] @
            (if i + k < length xs \<and> j + k < length ys
             then blocks P (alo + i + k) (blo + j + k) (drop (i + k) xs) (drop (j + k) ys)
             else []))"
  by pat_completeness auto
termination
proof (relation "measure (\<lambda>(P, alo, blo, xs, ys). length xs)", goal_cases)
  case 1
  show ?case by simp
next
  case 2
  then show ?case by (auto dest!: find_longest_match_bounds [OF sym])
next
  case 3
  then show ?case by (simp, arith)
qed

declare blocks.simps [simp del]

text \<open>
  \<^verbatim>\<open>get_matching_blocks\<close>: adjacent blocks are merged, and the list ends with the
  sentinel \<open>(len(a), len(b), 0)\<close>.
\<close>

fun collapse :: "nat \<times> nat \<times> nat \<Rightarrow> (nat \<times> nat \<times> nat) list \<Rightarrow> (nat \<times> nat \<times> nat) list" where
  "collapse (i1, j1, k1) [] = (if k1 \<noteq> 0 then [(i1, j1, k1)] else [])"
| "collapse (i1, j1, k1) ((i2, j2, k2) # bs) =
     (if i1 + k1 = i2 \<and> j1 + k1 = j2 then collapse (i1, j1, k1 + k2) bs
      else (if k1 \<noteq> 0 then [(i1, j1, k1)] else []) @ collapse (i2, j2, k2) bs)"

definition get_matching_blocks :: "'a list \<Rightarrow> 'a list \<Rightarrow> (nat \<times> nat \<times> nat) list" where
  "get_matching_blocks a b =
     collapse (0, 0, 0) (blocks (popular b) 0 0 a b) @ [(length a, length b, 0)]"

text \<open>
  \<^verbatim>\<open>ratio()\<close>: \<open>2.0 * matches / length\<close>, and \<open>1.0\<close> when both sequences are empty. The
  floating-point quotient is kept as the exact rational.
\<close>

definition ratio :: "'a list \<Rightarrow> 'a list \<Rightarrow> rat" where
  "ratio a b =
     (let matches = sum_list (map (\<lambda>t. snd (snd t)) (get_matching_blocks a b));
          len = length a + length b
      in if len \<noteq> 0 then 2 * of_nat matches / of_nat len else 1)"

section \<open>The standard library's unified diff\<close>

datatype tag = Replace | Delete | Insert | Equal

type_synonym opcode = "tag \<times> nat \<times> nat \<times> nat \<times> nat"

text \<open>\<^verbatim>\<open>get_opcodes\<close>, from the matching blocks.\<close>

fun opcodes_from :: "nat \<Rightarrow> nat \<Rightarrow> (nat \<times> nat \<times> nat) list \<Rightarrow> opcode list" where
  "opcodes_from i j [] = []"
| "opcodes_from i j ((ai, bj, sz) # bs) =
     (if i < ai \<and> j < bj then [(Replace, i, ai, j, bj)]
      else if i < ai then [(Delete, i, ai, j, bj)]
      else if j < bj then [(Insert, i, ai, j, bj)]
      else []) @
     (if sz \<noteq> 0 then [(Equal, ai, ai + sz, bj, bj + sz)] else []) @
     opcodes_from (ai + sz) (bj + sz) bs"

definition get_opcodes :: "'a list \<Rightarrow> 'a list \<Rightarrow> opcode list" where
  "get_opcodes a b = opcodes_from 0 0 (get_matching_blocks a b)"

text \<open>
  \<^verbatim>\<open>get_grouped_opcodes(n)\<close>: the leading and the trailing run of equal lines are cut
  down to \<open>n\<close> lines of context, a run of more than \<open>2n\<close> equal lines ends a group, and a
  group that is one run of equal lines is dropped.
\<close>

definition trim_first :: "nat \<Rightarrow> opcode list \<Rightarrow> opcode list" where
  "trim_first n codes =
     (case codes of
        (Equal, i1, i2, j1, j2) # rest \<Rightarrow> (Equal, max i1 (i2 - n), i2, max j1 (j2 - n), j2) # rest
      | _ \<Rightarrow> codes)"

definition trim_last :: "nat \<Rightarrow> opcode list \<Rightarrow> opcode list" where
  "trim_last n codes =
     (case rev codes of
        (Equal, i1, i2, j1, j2) # rest \<Rightarrow> rev rest @ [(Equal, i1, min i2 (i1 + n), j1, min j2 (j1 + n))]
      | _ \<Rightarrow> codes)"

fun grouping :: "nat \<Rightarrow> opcode list \<Rightarrow> opcode list \<Rightarrow> opcode list list" where
  "grouping n grp [] =
     (if grp \<noteq> [] \<and> \<not> (length grp = 1 \<and> fst (hd grp) = Equal) then [grp] else [])"
| "grouping n grp ((t, i1, i2, j1, j2) # codes) =
     (if t = Equal \<and> n + n < i2 - i1
      then (grp @ [(t, i1, min i2 (i1 + n), j1, min j2 (j1 + n))]) #
           grouping n [(t, max i1 (i2 - n), i2, max j1 (j2 - n), j2)] codes
      else grouping n (grp @ [(t, i1, i2, j1, j2)]) codes)"

definition get_grouped_opcodes :: "nat \<Rightarrow> 'a list \<Rightarrow> 'a list \<Rightarrow> opcode list list" where
  "get_grouped_opcodes n a b =
     (let codes = (if get_opcodes a b = [] then [(Equal, 0, 1, 0, 1)] else get_opcodes a b)
      in grouping n [] (trim_last n (trim_first n codes)))"

text \<open>\<^verbatim>\<open>_format_range_unified\<close>\<close>

definition format_range_unified :: "nat \<Rightarrow> nat \<Rightarrow> string" where
  "format_range_unified start stop =
     (let beginning = start + 1; len = stop - start in
      if len = 1 then str_nat beginning
      else str_nat (if len = 0 then beginning - 1 else beginning) @ '','' @ str_nat len)"

definition slice :: "'a list \<Rightarrow> nat \<Rightarrow> nat \<Rightarrow> 'a list" where
  "slice xs lo hi = take (hi - lo) (drop lo xs)"

definition opcode_lines :: "string list \<Rightarrow> string list \<Rightarrow> opcode \<Rightarrow> string list" where
  "opcode_lines a b code =
     (case code of (t, i1, i2, j1, j2) \<Rightarrow>
        if t = Equal then map (\<lambda>line. CHR '' '' # line) (slice a i1 i2)
        else
          (if t = Replace \<or> t = Delete then map (\<lambda>line. CHR ''-'' # line) (slice a i1 i2) else []) @
          (if t = Replace \<or> t = Insert then map (\<lambda>line. CHR ''+'' # line) (slice b j1 j2) else []))"

definition group_lines :: "string list \<Rightarrow> string list \<Rightarrow> opcode list \<Rightarrow> string list" where
  "group_lines a b grp =
     (case (hd grp, last grp) of
        ((t1, i1, i2, j1, j2), (t2, i3, i4, j3, j4)) \<Rightarrow>
          (''@@ -'' @ format_range_unified i1 i4 @ '' +'' @ format_range_unified j1 j4 @ '' @@'' @ [CHR 0x0A])
          # concat (map (opcode_lines a b) grp))"

text \<open>
  \<^verbatim>\<open>unified_diff(a, b, fromfile, tofile, n)\<close> with the default line terminator: the two
  header lines come lead the first group, so identical inputs give no line at all.
\<close>

definition unified_diff :: "string list \<Rightarrow> string list \<Rightarrow> string \<Rightarrow> string \<Rightarrow> nat \<Rightarrow> string list" where
  "unified_diff a b fromfile tofile n =
     (case get_grouped_opcodes n a b of
        [] \<Rightarrow> []
      | g # gs \<Rightarrow>
          (''--- '' @ fromfile @ [CHR 0x0A]) # (''+++ '' @ tofile @ [CHR 0x0A]) #
          concat (map (group_lines a b) (g # gs)))"

definition startswith :: "string \<Rightarrow> char \<Rightarrow> bool" where
  "startswith line c = (case line of [] \<Rightarrow> False | x # _ \<Rightarrow> x = c)"

fun universal_newlines :: "string \<Rightarrow> string" where
  "universal_newlines [] = []"
| "universal_newlines (c # cs) =
     (if c = CHR 0x0D then
        (case cs of d # ds \<Rightarrow> if d = CHR 0x0A then CHR 0x0A # universal_newlines ds
                            else CHR 0x0A # universal_newlines cs
         | [] \<Rightarrow> [CHR 0x0A])
      else c # universal_newlines cs)"

fun keep_ends :: "string \<Rightarrow> string list" where
  "keep_ends [] = []"
| "keep_ends (c # cs) =
     (if c = CHR 0x0A then [c] # keep_ends cs
      else (case keep_ends cs of [] \<Rightarrow> [[c]] | l # ls \<Rightarrow> (c # l) # ls))"

definition readlines :: "string \<Rightarrow> string list" where
  "readlines content = keep_ends (universal_newlines content)"

section \<open>Comparing versions\<close>

text \<open>
  What \<^verbatim>\<open>compare_versions\<close> returns. The similarity is \<^verbatim>\<open>matcher.ratio() * 100\<close>, a
  percentage; \<open>diff\<close> is the joined output of the unified diff.
\<close>

record comparison =
  version1 :: string
  version2 :: string
  similarity :: rat
  additions :: nat
  deletions :: nat
  diff :: string

text \<open>
  The labels of the two header lines, \<^verbatim>\<open>f"<two CJK characters> {version_id}"\<close>; the
  characters are given by their UTF-8 bytes.
\<close>

definition version_label :: "string \<Rightarrow> string" where
  "version_label vid =
     [CHR 0xE7, CHR 0x89, CHR 0x88, CHR 0xE6, CHR 0x9C, CHR 0xAC] @ '' '' @ vid"

text \<open>
  \<^verbatim>\<open>compare_versions\<close> reads the live file at the path each version records; a missing
  file is first restored from that version's snapshot. Contents are taken to be text that
  decodes, over code points below 256.
\<close>

definition compare_versions :: "string \<Rightarrow> string \<Rightarrow> control \<Rightarrow> comparison result" where
  "compare_versions version_id1 version_id2 s =
     (case find_version (versions (mem s)) version_id1 of
        None \<Rightarrow> (Inl VersionNotFoundError, s)
      | Some v1 \<Rightarrow>
          (case find_version (versions (mem s)) version_id2 of
             None \<Rightarrow> (Inl VersionNotFoundError, s)
           | Some v2 \<Rightarrow>
               (let s2 =
                      (if live s (file_path v1) = None \<or> live s (file_path v2) = None
                       then
                         (let s1 = (if live s (file_path v1) = None
                                    then snd (restore_from_backup version_id1 s) else s)
                          in if live s1 (file_path v2) = None
                             then snd (restore_from_backup version_id2 s1) else s1)
                       else s)
                in case (live s2 (file_path v1), live s2 (file_path v2)) of
                     (Some c1, Some c2) \<Rightarrow>
                       (let content1 = readlines c1;
                            content2 = readlines c2;
                            d = unified_diff content1 content2
                                  (version_label version_id1) (version_label version_id2) 3;
                            sim = ratio (concat content1) (concat content2) * 100
                        in (Inr \<lparr>version1 = version_id1, version2 = version_id2,
                                  similarity = sim,
                                  additions = length (filter (\<lambda>line. startswith line CHR ''+'') d),
                                  deletions = length (filter (\<lambda>line. startswith line CHR ''-'') d),
                                  diff = concat d\<rparr>, s2))
                   | _ \<Rightarrow> (Inl FileNotFoundError, s2))))"

section \<open>Loading the ledger\<close>

text \<open>
  \<^verbatim>\<open>_backup_corrupt_file\<close> copies the ledger file into the backup directory under
  \<^verbatim>\<open><name>.<YYYYmmddHHMMSS>.bak\<close>; the clock reading stands for the formatted time.
  Unlike \<^verbatim>\<open>_backup_version\<close> it does not catch a failing copy.
\<close>

definition corrupt_name :: "control \<Rightarrow> string" where
  "corrupt_name s = ''standards_versions.json.'' @ str_nat (clock s) @ ''.bak''"

definition backup_corrupt_file :: "control \<Rightarrow> error + control" where
  "backup_corrupt_file s =
     (case version_file s of
        None \<Rightarrow> Inl FileNotFoundError
      | Some content \<Rightarrow>
          if backup_ok s (corrupt_name s)
          then Inr (s\<lparr>archived := (archived s)(corrupt_name s \<mapsto> content)\<rparr>)
          else Inl OSError)"

text \<open>
  \<^verbatim>\<open>_load_versions\<close>: only \<^verbatim>\<open>json.JSONDecodeError\<close> is caught. UnicodeDecodeError is
  a different subclass of ValueError and leaves the method.
\<close>

definition load_versions :: "control \<Rightarrow> ledger result" where
  "load_versions s =
     (case version_file s of
        None \<Rightarrow> (Inr empty_ledger, s)
      | Some Undecodable \<Rightarrow> (Inl UnicodeDecodeError, s)
      | Some (Document l) \<Rightarrow> (Inr l, s)
      | Some Malformed \<Rightarrow>
          (case backup_corrupt_file s of
             Inl e \<Rightarrow> (Inl e, s)
           | Inr s1 \<Rightarrow> (Inr empty_ledger, s1)))"

text \<open>The constructor: \<^verbatim>\<open>self.versions = self._load_versions()\<close>.\<close>

definition init :: "control \<Rightarrow> unit result" where
  "init s =
     (case load_versions s of
        (Inl e, s1) \<Rightarrow> (Inl e, s1)
      | (Inr l, s1) \<Rightarrow> (Inr (), s1\<lparr>mem := l\<rparr>))"

section \<open>Callers\<close>

text \<open>
  A caller that issues one \<^verbatim>\<open>create_version\<close> call after the other, each with its
  path, description and version type, and goes on after a call that raised. It collects
  the identifiers of the versions the successful calls returned, in order.
\<close>

fun create_all ::
  "(string \<Rightarrow> string) \<Rightarrow> (string \<times> string \<times> string) list \<Rightarrow> control \<Rightarrow> string list \<times> control" where
  "create_all H [] s = ([], s)"
| "create_all H ((path, descr, version_type) # calls) s =
     (case create_version H path descr version_type s of
        (Inl e, s1) \<Rightarrow> create_all H calls s1
      | (Inr new_version, s1) \<Rightarrow>
          (case create_all H calls s1 of (ids, s2) \<Rightarrow> (version_id new_version # ids, s2)))"

text \<open>The ledger invariant of the data model: no identifier occurs twice.\<close>

definition unique_ids :: "ledger \<Rightarrow> bool" where
  "unique_ids l = distinct (map version_id (versions l))"

text \<open>
  The operations of the controller, and a caller that issues them one after the other;
  \<open>run\<close> keeps the world an operation leaves, whether it returned or raised.
\<close>

datatype operation =
    Create string string string
  | Activate string
  | MarkStable string
  | RollbackTo string
  | RollbackToLastStable
  | Compare string string

fun run :: "(string \<Rightarrow> string) \<Rightarrow> control \<Rightarrow> operation \<Rightarrow> control" where
  "run H s (Create path descr version_type) = snd (create_version H path descr version_type s)"
| "run H s (Activate vid) = snd (activate_version H vid s)"
| "run H s (MarkStable vid) = snd (mark_as_stable vid s)"
| "run H s (RollbackTo vid) = snd (rollback_to_version H vid s)"
| "run H s RollbackToLastStable = snd (rollback_to_last_stable H s)"
| "run H s (Compare vid1 vid2) = snd (compare_versions vid1 vid2 s)"

definition active_versions :: "ledger \<Rightarrow> version list" where
  "active_versions l = filter active (versions l)"

text \<open>The single-active invariant of the data model, together with unique identifiers.\<close>

definition ledger_inv :: "ledger \<Rightarrow> bool" where
  "ledger_inv l = (unique_ids l \<and> length (active_versions l) \<le> 1)"

text \<open>A stand-in for the digest in examples: it tells any two contents apart.\<close>

definition toy_digest :: "string \<Rightarrow> string" where
  "toy_digest content = content"

text \<open>
  A freshly constructed controller on a repository that holds one artifact, as
  \<^verbatim>\<open>main()\<close> sets it up: no ledger file yet, every write goes through.
\<close>

definition fresh :: control where
  "fresh =
     \<lparr>mem = empty_ledger, live = [''core_standards.md'' \<mapsto> ''rules''],
      snapshots = Map.empty, archived = Map.empty, version_file = None,
      save_ok = True, backup_ok = (\<lambda>_. True), restore_ok = (\<lambda>_. True),
      clock = 0, login = None\<rparr>"

text \<open>The same controller after \<^verbatim>\<open>main()\<close>'s first call, and the version that call returns.\<close>

definition created :: control where
  "created = snd (create_version toy_digest ''core_standards.md'' ''initial'' ''major'' fresh)"

definition first_version :: version where
  "first_version =
     \<lparr>version_id = ''v1.0.0'', timestamp = 0, file_path = ''core_standards.md'',
      hash = ''rules'', description = ''initial'', active = False, stable = False,
      compatibility = [''v1.0.0'']\<rparr>"

text \<open>
  A ledger with the stable versions \<open>1.0.0\<close> and \<open>2.1.0\<close> and the version \<open>3.0.0\<close>
  that is not stable, all of the artifact as it is.
\<close>

definition three_versions :: control where
  "three_versions =
     fresh\<lparr>mem := \<lparr>versions =
        [first_version\<lparr>version_id := ''1.0.0'', stable := True\<rparr>,
         first_version\<lparr>version_id := ''2.1.0'', stable := True\<rparr>,
         first_version\<lparr>version_id := ''3.0.0''\<rparr>],
        history = Some []\<rparr>\<rparr>"

text \<open>
  The controller of \<^verbatim>\<open>main()\<close> after the artifact was edited and a second version
  created from it, and the version that call returns.
\<close>

definition two_versions :: control where
  "two_versions =
     snd (create_version toy_digest ''core_standards.md'' ''update'' ''minor''
       (created\<lparr>live := (live created)(''core_standards.md'' \<mapsto> ''rules, revised'')\<rparr>))"


text \<open>
  A repository with two artifacts of four lines each, \<open>a a b a\<close> and \<open>b a a a\<close>, and one
  version of each.
\<close>

definition two_artifacts :: control where
  "two_artifacts =
     snd (create_version toy_digest ''b.md'' ''second'' ''minor''
       (snd (create_version toy_digest ''a.md'' ''first'' ''major''
         (fresh\<lparr>live :=
            [''a.md'' \<mapsto> [CHR ''a'', CHR 0x0A, CHR ''a'', CHR 0x0A, CHR ''b'', CHR 0x0A, CHR ''a'', CHR 0x0A],
             ''b.md'' \<mapsto> [CHR ''b'', CHR 0x0A, CHR ''a'', CHR 0x0A, CHR ''a'', CHR 0x0A, CHR ''a'', CHR 0x0A]]\<rparr>))))"

section \<open>Notions used in the proofs about the diff\<close>





section \<open>Parsing and formatting identifiers\<close>

lemma digit_chr_props: "d < 10 \<Longrightarrow> is_digit (digit_chr d) \<and> digit_val (digit_chr d) = d"
  by (simp add: is_digit_def digit_chr_def digit_val_def)

lemma digit_not_special:
  "is_digit c \<Longrightarrow> \<not> is_space c \<and> c \<noteq> CHR ''.'' \<and> c \<noteq> CHR ''v'' \<and> c \<noteq> CHR ''-'' \<and> c \<noteq> CHR ''+'' \<and> c \<noteq> CHR ''_''"
  by (auto simp: is_digit_def is_space_def Let_def)

lemma str_nat_digits: "c \<in> set (str_nat n) \<Longrightarrow> is_digit c"
proof (induction n arbitrary: c rule: str_nat.induct)
  case (1 n)
  show ?case
  proof (cases "n < 10")
    case True
    with "1.prems" show ?thesis by (simp add: str_nat.simps [of n] digit_chr_props)
  next
    case False
    with "1.prems" "1.IH" show ?thesis
      by (auto simp: str_nat.simps [of n] digit_chr_props)
  qed
qed

lemma str_nat_nonempty: "str_nat n \<noteq> []"
  by (subst str_nat.simps) simp

lemma digits_val_snoc:
  "\<forall>c\<in>set xs. is_digit c \<Longrightarrow> is_digit d \<Longrightarrow>
   digits_val acc (xs @ [d]) = map_option (\<lambda>v. v * 10 + digit_val d) (digits_val acc xs)"
  by (induction xs arbitrary: acc) (auto simp: digit_not_special)

lemma digits_val_str_nat: "digits_val 0 (str_nat n) = Some n"
proof (induction n rule: str_nat.induct)
  case (1 n)
  show ?case
  proof (cases "n < 10")
    case True
    then show ?thesis by (simp add: str_nat.simps [of n] digit_chr_props)
  next
    case False
    have d: "is_digit (digit_chr (n mod 10))" by (simp add: digit_chr_props)
    have "digits_val 0 (str_nat (n div 10) @ [digit_chr (n mod 10)]) =
          map_option (\<lambda>v. v * 10 + digit_val (digit_chr (n mod 10))) (digits_val 0 (str_nat (n div 10)))"
      using digits_val_snoc [OF _ d] str_nat_digits by blast
    with False "1.IH" show ?thesis
      by (simp add: str_nat.simps [of n] digit_chr_props)
  qed
qed

lemma literal_val_str_nat: "literal_val (str_nat n) = Some n"
proof -
  obtain c cs where e: "str_nat n = c # cs" using str_nat_nonempty by (cases "str_nat n") auto
  then have "is_digit c" using str_nat_digits [of c n] by simp
  with e digits_val_str_nat [of n] show ?thesis by (simp add: literal_val_def)
qed

lemma dropWhile_none: "\<forall>c\<in>set s. \<not> P c \<Longrightarrow> dropWhile P s = s"
  by (cases s) auto

lemma strip_id: "\<forall>c\<in>set s. \<not> is_space c \<Longrightarrow> strip s = s"
  by (simp add: strip_def dropWhile_none)

lemma str_int_chars: "c \<in> set (str_int i) \<Longrightarrow> is_digit c \<or> c = CHR ''-''"
  by (auto simp: str_int_def dest: str_nat_digits split: if_splits)

lemma str_int_plain:
  "c \<in> set (str_int i) \<Longrightarrow> \<not> is_space c \<and> c \<noteq> CHR ''.'' \<and> c \<noteq> CHR ''v''"
  using str_int_chars [of c i] digit_not_special [of c] by (auto simp: is_space_def Let_def)

lemma py_int_str_int: "py_int (str_int i) = Inr i"
proof -
  have s: "strip (str_int i) = str_int i" by (rule strip_id) (simp add: str_int_plain)
  show ?thesis
  proof (cases "i < 0")
    case True
    then show ?thesis by (simp add: py_int_def s) (simp add: str_int_def literal_val_str_nat)
  next
    case False
    obtain c cs where e: "str_nat (nat i) = c # cs"
      using str_nat_nonempty by (cases "str_nat (nat i)") auto
    then have "is_digit c" using str_nat_digits [of c "nat i"] by simp
    then have "c \<noteq> CHR ''-''" "c \<noteq> CHR ''+''" by (simp_all add: digit_not_special)
    moreover have "literal_val (c # cs) = Some (nat i)" using literal_val_str_nat [of "nat i"] e by simp
    ultimately show ?thesis using False e by (simp add: py_int_def s) (simp add: str_int_def)
  qed
qed

lemma split_on_none: "c \<notin> set xs \<Longrightarrow> split_on c xs = [xs]"
  by (induction xs) auto

lemma split_on_first: "c \<notin> set xs \<Longrightarrow> split_on c (xs @ c # ys) = xs # split_on c ys"
  by (induction xs) auto

lemma str_int_nonempty: "str_int i \<noteq> []"
  by (simp add: str_int_def str_nat_nonempty)

lemma lstrip_v_str_int: "lstrip_v (CHR ''v'' # str_int a @ r) = str_int a @ r"
proof -
  obtain c cs where e: "str_int a = c # cs" using str_int_nonempty by (cases "str_int a") auto
  then have "c \<noteq> CHR ''v''" using str_int_plain [of c a] by simp
  with e show ?thesis by (simp add: lstrip_v_def)
qed

lemma version_key_fmt: "version_key (fmt_version a b c) = Inr [a, b, c]"
proof -
  have na: "CHR ''.'' \<notin> set (str_int a)" and nb: "CHR ''.'' \<notin> set (str_int b)"
    and nc: "CHR ''.'' \<notin> set (str_int c)"
    using str_int_plain by blast+
  have "split_on CHR ''.'' (str_int a @ CHR ''.'' # str_int b @ CHR ''.'' # str_int c) =
        [str_int a, str_int b, str_int c]"
    by (simp add: split_on_first [OF na] split_on_first [OF nb] split_on_none [OF nc])
  then show ?thesis
    using lstrip_v_str_int [of a "''.'' @ str_int b @ ''.'' @ str_int c"]
    by (simp add: version_key_def fmt_version_def py_int_str_int)
qed


lemma bump_major: "k < [pad3 k ! 0 + 1, 0, 0]"
proof (cases k)
  case Nil then show ?thesis by simp
next
  case (Cons a r) then show ?thesis by (simp add: pad3_def)
qed

lemma bump_minor: "k < [pad3 k ! 0, pad3 k ! 1 + 1, 0]"
proof (cases k)
  case Nil then show ?thesis by simp
next
  case (Cons a r) then show ?thesis by (cases r) (simp_all add: pad3_def)
qed

lemma bump_patch: "k < [pad3 k ! 0, pad3 k ! 1, pad3 k ! 2 + 1]"
proof (cases k)
  case Nil then show ?thesis by simp
next
  case (Cons a r)
  show ?thesis
  proof (cases r)
    case Nil with Cons show ?thesis by (simp add: pad3_def)
  next
    case (Cons b r')
    with \<open>k = a # r\<close> show ?thesis by (cases r') (simp_all add: pad3_def)
  qed
qed

lemma increment_version_greater:
  assumes "version_key v = Inr k" and "increment_version v t = Inr v'"
  shows "\<exists>k'. version_key v' = Inr k' \<and> k < k'"
  using assms bump_major [of k] bump_minor [of k] bump_patch [of k]
  by (auto simp: increment_version_def Let_def version_key_fmt split: if_splits)

lemma keyed_Inr:
  "keyed vs = Inr kvs \<Longrightarrow>
   map snd kvs = vs \<and> (\<forall>kv\<in>set kvs. version_key (version_id (snd kv)) = Inr (fst kv))"
  by (induction vs arbitrary: kvs) (auto split: sum.splits)

lemma sorted_last_max: "sorted xs \<Longrightarrow> x \<in> set xs \<Longrightarrow> x \<le> last xs"
  by (induction xs) (auto split: if_splits)

lemma sorted_desc_head:
  assumes "sorted_desc kvs = kv # rest"
  shows "kv \<in> set kvs \<and> (\<forall>x\<in>set kvs. fst x \<le> fst kv)"
proof -
  let ?s = "sort_key fst (rev kvs)"
  from assms have ne: "?s \<noteq> []" by (auto simp: sorted_desc_def)
  from assms have "hd (rev ?s) = kv" by (simp add: sorted_desc_def)
  then have l: "last ?s = kv" by (simp add: hd_rev)
  have "last ?s \<in> set ?s" using ne by (rule last_in_set)
  then have m: "kv \<in> set kvs" using l by simp
  have srt: "sorted (map fst ?s)" by simp
  have "\<forall>x\<in>set kvs. fst x \<le> fst kv"
  proof
    fix x assume "x \<in> set kvs"
    then have "fst x \<in> set (map fst ?s)" by simp
    then have "fst x \<le> last (map fst ?s)" using srt by (rule sorted_last_max [rotated])
    then show "fst x \<le> fst kv" using l ne by (simp add: last_map)
  qed
  with m show ?thesis by simp
qed

lemma newest_max:
  assumes "newest vs = Inr v"
  shows "v \<in> set vs \<and> (\<exists>k. version_key (version_id v) = Inr k \<and>
           (\<forall>u\<in>set vs. \<exists>ku. version_key (version_id u) = Inr ku \<and> ku \<le> k))"
proof -
  from assms obtain kvs kv rest where k: "keyed vs = Inr kvs" and h: "sorted_desc kvs = kv # rest"
    and v: "v = snd kv"
    by (auto simp: newest_def split: sum.splits list.splits)
  from keyed_Inr [OF k] have ms: "map snd kvs = vs"
    and ks: "\<forall>kv\<in>set kvs. version_key (version_id (snd kv)) = Inr (fst kv)" by simp_all
  from sorted_desc_head [OF h] have m: "kv \<in> set kvs" and mx: "\<forall>x\<in>set kvs. fst x \<le> fst kv"
    by simp_all
  have "v \<in> set vs" using m ms v by force
  moreover have "version_key (version_id v) = Inr (fst kv)" using ks m v by simp
  moreover have "\<forall>u\<in>set vs. \<exists>ku. version_key (version_id u) = Inr ku \<and> ku \<le> fst kv"
  proof
    fix u assume "u \<in> set vs"
    then obtain x where "x \<in> set kvs" "snd x = u" using ms by force
    then show "\<exists>ku. version_key (version_id u) = Inr ku \<and> ku \<le> fst kv"
      using ks mx by auto
  qed
  ultimately show ?thesis by blast
qed

lemma next_version_id_greater:
  assumes "next_version_id l t = Inr vid"
  shows "\<exists>k. version_key vid = Inr k \<and>
           (\<forall>u\<in>set (versions l). \<exists>ku. version_key (version_id u) = Inr ku \<and> ku < k)"
proof (cases "versions l = []")
  case True
  with assms have "vid = ''v1.0.0''" by (simp add: next_version_id_def get_latest_version_def)
  moreover have "version_key ''v1.0.0'' = Inr [1, 0, 0]" by code_simp
  ultimately show ?thesis using True by simp
next
  case False
  with assms obtain v where n: "newest (versions l) = Inr v"
    and i: "increment_version (version_id v) t = Inr vid"
    by (auto simp: next_version_id_def get_latest_version_def split: sum.splits)
  from newest_max [OF n] obtain k where kv: "version_key (version_id v) = Inr k"
    and mx: "\<forall>u\<in>set (versions l). \<exists>ku. version_key (version_id u) = Inr ku \<and> ku \<le> k"
    by blast
  from increment_version_greater [OF kv i] obtain k' where k': "version_key vid = Inr k'" "k < k'"
    by blast
  have "\<forall>u\<in>set (versions l). \<exists>ku. version_key (version_id u) = Inr ku \<and> ku < k'"
  proof
    fix u assume "u \<in> set (versions l)"
    with mx obtain ku where "version_key (version_id u) = Inr ku" "ku \<le> k" by blast
    with k' show "\<exists>ku. version_key (version_id u) = Inr ku \<and> ku < k'" by auto
  qed
  with k' show ?thesis by blast
qed

section \<open>Creating versions\<close>

lemma create_version_Inr:
  assumes "create_version H p d t s = (Inr nv, s')"
  shows "next_version_id (mem s) t = Inr (version_id nv) \<and>
         versions (mem s') = versions (mem s) @ [nv] \<and>
         (\<exists>c. live s p = Some c \<and> hash nv = H c) \<and> file_path nv = p \<and> \<not> active nv \<and> \<not> stable nv"
  using assms
  by (auto simp: create_version_def Let_def record_action_def add_history_def save_versions_def
      backup_version_def split: option.splits sum.splits if_splits)

lemma create_version_Inl:
  assumes "create_version H p d t s = (Inl e, s')"
  shows "s' = s"
  using assms
  by (auto simp: create_version_def Let_def split: option.splits sum.splits)

lemma create_all_increasing:
  "\<exists>ks. map version_key (fst (create_all H calls s)) = map Inr ks \<and> sorted_wrt (<) ks \<and>
     (\<forall>k\<in>set ks. \<forall>u\<in>set (versions (mem s)). \<exists>ku. version_key (version_id u) = Inr ku \<and> ku < k)"
proof (induction calls arbitrary: s)
  case Nil
  show ?case by simp
next
  case (Cons call calls)
  obtain p d t where call: "call = (p, d, t)" by (cases call) auto
  obtain r s1 where c: "create_version H p d t s = (r, s1)" by (cases "create_version H p d t s") auto
  show ?case
  proof (cases r)
    case (Inl e)
    with c have "s1 = s" by (simp add: create_version_Inl)
    with Cons.IH [of s] c Inl call show ?thesis by simp
  next
    case (Inr nv)
    from c Inr have cv: "create_version H p d t s = (Inr nv, s1)" by simp
    from create_version_Inr [OF cv] have nx: "next_version_id (mem s) t = Inr (version_id nv)"
      and vs: "versions (mem s1) = versions (mem s) @ [nv]" by simp_all
    from next_version_id_greater [OF nx] obtain k0 where k0: "version_key (version_id nv) = Inr k0"
      and old: "\<forall>u\<in>set (versions (mem s)). \<exists>ku. version_key (version_id u) = Inr ku \<and> ku < k0"
      by blast
    from Cons.IH [of s1] obtain ks where ks: "map version_key (fst (create_all H calls s1)) = map Inr ks"
      and srt: "sorted_wrt (<) ks"
      and gt: "\<forall>k\<in>set ks. \<forall>u\<in>set (versions (mem s1)). \<exists>ku. version_key (version_id u) = Inr ku \<and> ku < k"
      by blast
    have above: "\<forall>k\<in>set ks. k0 < k"
    proof
      fix k assume "k \<in> set ks"
      with gt vs have "\<exists>ku. version_key (version_id nv) = Inr ku \<and> ku < k" by simp
      with k0 show "k0 < k" by simp
    qed
    have e: "fst (create_all H (call # calls) s) = version_id nv # fst (create_all H calls s1)"
      using cv call by (simp split: prod.splits)
    have "map version_key (fst (create_all H (call # calls) s)) = map Inr (k0 # ks)"
      using e k0 ks by simp
    moreover have "sorted_wrt (<) (k0 # ks)" using srt above by simp
    moreover have "\<forall>k\<in>set (k0 # ks). \<forall>u\<in>set (versions (mem s)).
        \<exists>ku. version_key (version_id u) = Inr ku \<and> ku < k"
      using old gt vs by auto
    ultimately show ?thesis by blast
  qed
qed

lemma key_sorted_distinct:
  assumes "map version_key ids = map Inr ks" and "sorted_wrt (<) (ks :: int list list)"
  shows "distinct ids"
proof -
  from assms(2) have "distinct ks" by (simp add: strict_sorted_iff)
  then have "distinct (map Inr ks :: (error + int list) list)" by (simp add: distinct_map)
  with assms(1) have "distinct (map version_key ids)" by simp
  then show ?thesis by (simp add: distinct_map)
qed

section \<open>The ledger invariant\<close>

lemma ids_set_active: "map version_id (set_active X vs) = map version_id vs"
  by (simp add: set_active_def)

lemma ids_set_stable: "map version_id (set_stable X vs) = map version_id vs"
  by (induction vs) auto

lemma flags_set_stable: "map active (set_stable X vs) = map active vs"
  by (induction vs) auto

lemma count_by_flags: "length (filter P xs) = length (filter (\<lambda>b. b) (map P xs))"
  by (induction xs) auto

lemma active_set_stable: "length (filter active (set_stable X vs)) = length (filter active vs)"
  by (metis count_by_flags flags_set_stable)

lemma active_set_active:
  "filter active (set_active X vs) =
   map (\<lambda>v. v\<lparr>active := True\<rparr>) (filter (\<lambda>v. version_id v = X) vs)"
  by (induction vs) (auto simp: set_active_def)

lemma find_version_Some: "find_version vs X = Some v \<Longrightarrow> v \<in> set vs \<and> version_id v = X"
  by (induction vs) (auto split: if_splits)

lemma find_version_None: "find_version vs X = None \<longleftrightarrow> X \<notin> version_id ` set vs"
  by (induction vs) auto

lemma find_version_unique:
  "distinct (map version_id vs) \<Longrightarrow> v \<in> set vs \<Longrightarrow> find_version vs (version_id v) = Some v"
  by (induction vs) force+

lemma filter_id_unique:
  "distinct (map version_id vs) \<Longrightarrow> v \<in> set vs \<Longrightarrow>
   filter (\<lambda>u. version_id u = version_id v) vs = [v]"
proof (induction vs)
  case Nil then show ?case by simp
next
  case (Cons a vs)
  show ?case
  proof (cases "a = v")
    case True
    with Cons.prems have "version_id v \<notin> version_id ` set vs" by simp
    then have "\<forall>u\<in>set vs. version_id u \<noteq> version_id v" by (metis imageI)
    then have "filter (\<lambda>u. version_id u = version_id v) vs = []" by (simp add: filter_empty_conv)
    with True show ?thesis by simp
  next
    case False
    with Cons.prems have "v \<in> set vs" "version_id a \<noteq> version_id v" by force+
    with Cons show ?thesis by simp
  qed
qed

lemma filter_id_le1:
  "distinct (map version_id vs) \<Longrightarrow> length (filter (\<lambda>u. version_id u = X) vs) \<le> 1"
proof (cases "X \<in> version_id ` set vs")
  case True
  assume d: "distinct (map version_id vs)"
  from True obtain v where "v \<in> set vs" "version_id v = X" by auto
  with filter_id_unique [OF d, of v] show ?thesis by auto
next
  case False
  then have "filter (\<lambda>u. version_id u = X) vs = []" by (auto simp: filter_empty_conv)
  then show ?thesis by simp
qed

lemma mem_record_action: "versions (mem (record_action a X s)) = versions (mem s)"
  by (simp add: record_action_def add_history_def)

lemma mem_save_versions: "mem (save_versions s) = mem s"
  by (simp add: save_versions_def)

lemma mem_backup_version: "mem (backup_version p X s) = mem s"
  by (simp add: backup_version_def split: option.splits)

lemma mem_restore: "mem (snd (restore_from_backup X s)) = mem s"
  by (simp add: restore_from_backup_def split: option.splits)

lemma activate_versions:
  "versions (mem (snd (activate_version H X s))) =
     (if fst (activate_version H X s) = Inr () then set_active X (versions (mem s))
      else versions (mem s))"
  by (simp add: activate_version_def Let_def mem_record_action mem_save_versions
      split: option.splits)

lemma mark_versions:
  "versions (mem (snd (mark_as_stable X s))) =
     (if fst (mark_as_stable X s) = Inr () then set_stable X (versions (mem s))
      else versions (mem s))"
  by (simp add: mark_as_stable_def Let_def mem_record_action mem_save_versions
      split: option.splits)

lemma rollback_versions:
  "versions (mem (snd (rollback_to_version H X s))) = versions (mem s) \<or>
   versions (mem (snd (rollback_to_version H X s))) = set_active X (versions (mem s))"
proof -
  have r: "\<And>s1. mem s1 = mem s \<Longrightarrow>
      versions (mem (snd (activate_version H X s1))) = versions (mem s) \<or>
      versions (mem (snd (activate_version H X s1))) = set_active X (versions (mem s))"
    by (simp add: activate_versions)
  show ?thesis
  proof (cases "find_version (versions (mem s)) X")
    case None then show ?thesis by (simp add: rollback_to_version_def)
  next
    case (Some v)
    obtain ok s1 where e: "(if \<not> verify_version_integrity H s v then restore_from_backup X s else (True, s)) = (ok, s1)"
      by (cases "(if \<not> verify_version_integrity H s v then restore_from_backup X s else (True, s))") auto
    then have m: "mem s1 = mem s" using mem_restore [of X s] by (auto split: if_splits)
    obtain r s2 where a: "activate_version H X s1 = (r, s2)" by (cases "activate_version H X s1") auto
    from r [OF m] a have "versions (mem s2) = versions (mem s) \<or> versions (mem s2) = set_active X (versions (mem s))"
      by simp
    with Some e m a show ?thesis
      by (cases r) (auto simp: rollback_to_version_def mem_record_action)
  qed
qed

lemma last_stable_versions:
  "versions (mem (snd (rollback_to_last_stable H s))) = versions (mem s) \<or>
   (\<exists>X. versions (mem (snd (rollback_to_last_stable H s))) = set_active X (versions (mem s)))"
proof -
  have "\<And>X. versions (mem (snd (case rollback_to_version H X s of
           (Inl e, s1) \<Rightarrow> (Inl e, s1)
         | (Inr u, s1) \<Rightarrow> (Inr (Some X), s1)))) = versions (mem (snd (rollback_to_version H X s)))"
    by (auto split: prod.splits sum.splits)
  then show ?thesis
    using rollback_versions [of H _ s]
    by (auto simp: rollback_to_last_stable_def Let_def split: sum.splits)
qed

lemma create_versions:
  "versions (mem (snd (create_version H p d t s))) = versions (mem s) \<or>
   (\<exists>nv. versions (mem (snd (create_version H p d t s))) = versions (mem s) @ [nv] \<and>
         \<not> active nv \<and> version_id nv \<notin> version_id ` set (versions (mem s)))"
proof -
  obtain r s1 where c: "create_version H p d t s = (r, s1)" by (cases "create_version H p d t s") auto
  show ?thesis
  proof (cases r)
    case (Inl e)
    with c create_version_Inl [of H p d t s e s1] show ?thesis by simp
  next
    case (Inr nv)
    with c have cv: "create_version H p d t s = (Inr nv, s1)" by simp
    from create_version_Inr [OF cv] have nx: "next_version_id (mem s) t = Inr (version_id nv)"
      and vs: "versions (mem s1) = versions (mem s) @ [nv]" and na: "\<not> active nv" by simp_all
    from next_version_id_greater [OF nx] have "version_id nv \<notin> version_id ` set (versions (mem s))"
      by force
    with vs na c show ?thesis by auto
  qed
qed

lemma inv_set_active:
  "distinct (map version_id vs) \<Longrightarrow>
   distinct (map version_id (set_active X vs)) \<and> length (filter active (set_active X vs)) \<le> 1"
  using filter_id_le1 [of vs X] by (simp add: ids_set_active active_set_active)

lemma mem_compare: "mem (snd (compare_versions vid1 vid2 s)) = mem s"
  using mem_restore [of vid1 s] mem_restore [of vid2 s]
    mem_restore [of vid2 "snd (restore_from_backup vid1 s)"]
  by (auto simp: compare_versions_def Let_def split: option.splits)

lemma ledger_inv_empty: "ledger_inv empty_ledger"
  by (simp add: ledger_inv_def unique_ids_def active_versions_def empty_ledger_def)

lemma run_inv: "ledger_inv (mem s) \<Longrightarrow> ledger_inv (mem (run H s op))"
proof (cases op)
  case (Create p d t)
  assume "ledger_inv (mem s)"
  with create_versions [of H p d t s] Create show ?thesis
    by (auto simp: ledger_inv_def unique_ids_def active_versions_def)
next
  case (Activate X)
  assume "ledger_inv (mem s)"
  with inv_set_active [of "versions (mem s)" X] Activate show ?thesis
    by (simp add: ledger_inv_def unique_ids_def active_versions_def activate_versions)
next
  case (MarkStable X)
  assume "ledger_inv (mem s)"
  with MarkStable show ?thesis
    by (simp add: ledger_inv_def unique_ids_def active_versions_def mark_versions
        ids_set_stable active_set_stable)
next
  case (RollbackTo X)
  assume "ledger_inv (mem s)"
  with inv_set_active [of "versions (mem s)" X] rollback_versions [of H X s] RollbackTo show ?thesis
    by (auto simp: ledger_inv_def unique_ids_def active_versions_def)
next
  case RollbackToLastStable
  assume i: "ledger_inv (mem s)"
  from last_stable_versions [of H s] show ?thesis
  proof
    assume "versions (mem (snd (rollback_to_last_stable H s))) = versions (mem s)"
    with i RollbackToLastStable show ?thesis
      by (simp add: ledger_inv_def unique_ids_def active_versions_def)
  next
    assume "\<exists>X. versions (mem (snd (rollback_to_last_stable H s))) = set_active X (versions (mem s))"
    then obtain X where "versions (mem (snd (rollback_to_last_stable H s))) = set_active X (versions (mem s))" ..
    with i inv_set_active [of "versions (mem s)" X] RollbackToLastStable show ?thesis
      by (simp add: ledger_inv_def unique_ids_def active_versions_def)
  qed
next
  case (Compare vid1 vid2)
  assume "ledger_inv (mem s)"
  with Compare show ?thesis by (simp add: mem_compare)
qed

lemma run_all_inv: "ledger_inv (mem s) \<Longrightarrow> ledger_inv (mem (foldl (run H) s ops))"
  by (induction ops arbitrary: s) (simp_all add: run_inv)

lemma activate_success:
  assumes "unique_ids (mem s)" and "activate_version H X s = (Inr (), s')"
  shows "\<exists>v. find_version (versions (mem s)) X = Some v \<and>
             active_versions (mem s') = [v\<lparr>active := True\<rparr>]"
proof -
  from assms(2) obtain v where f: "find_version (versions (mem s)) X = Some v"
    by (auto simp: activate_version_def split: option.splits)
  from assms(2) have "versions (mem s') = set_active X (versions (mem s))"
    using activate_versions [of H X s] by simp
  moreover from find_version_Some [OF f] have "v \<in> set (versions (mem s))" "version_id v = X" by simp_all
  ultimately show ?thesis
    using filter_id_unique [of "versions (mem s)" v] assms(1) f
    by (simp add: active_versions_def active_set_active unique_ids_def)
qed

lemma find_version_snoc:
  "version_id v \<notin> version_id ` set vs \<Longrightarrow> find_version (vs @ [v]) (version_id v) = Some v"
  by (induction vs) auto

lemma keyed_total:
  "\<forall>u\<in>set vs. \<exists>k. version_key (version_id u) = Inr k \<Longrightarrow>
   \<exists>kvs. keyed vs = Inr kvs \<and> length kvs = length vs"
  by (induction vs) auto

lemma newest_total:
  assumes "vs \<noteq> []" and "\<forall>u\<in>set vs. \<exists>k. version_key (version_id u) = Inr k"
  shows "\<exists>v. newest vs = Inr v"
proof -
  from keyed_total [OF assms(2)] obtain kvs where k: "keyed vs = Inr kvs" "length kvs = length vs"
    by blast
  have "length (sorted_desc kvs) = length kvs" by (simp add: sorted_desc_def)
  with assms(1) k have "sorted_desc kvs \<noteq> []" by auto
  then obtain kv rest where "sorted_desc kvs = kv # rest" by (cases "sorted_desc kvs") auto
  with k show ?thesis by (simp add: newest_def)
qed

lemma load_malformed:
  "version_file s = Some Malformed \<Longrightarrow> backup_ok s (corrupt_name s) \<Longrightarrow>
   load_versions s = (Inr empty_ledger, s\<lparr>archived := (archived s)(corrupt_name s \<mapsto> Malformed)\<rparr>)"
  by (simp add: load_versions_def backup_corrupt_file_def)

section \<open>The matcher and the diff\<close>

lemma blocks_sum:
  "sum_list (map (\<lambda>t. snd (snd t)) (blocks P alo blo xs ys)) \<le> min (length xs) (length ys)"
proof (induction P alo blo xs ys rule: blocks.induct)
  case (1 P alo blo xs ys)
  obtain i j k where f: "find_longest_match P xs ys = (i, j, k)"
    by (cases "find_longest_match P xs ys") auto
  from find_longest_match_bounds [OF f] have b: "i + k \<le> length xs" "j + k \<le> length ys" by simp_all
  show ?case
  proof (cases "k = 0")
    case True
    with f show ?thesis by (simp add: blocks.simps [of P alo blo xs ys])
  next
    case False
    note kpos = this
    let ?l = "if 0 < i \<and> 0 < j then blocks P alo blo (take i xs) (take j ys) else []"
    let ?r = "if i + k < length xs \<and> j + k < length ys
              then blocks P (alo + i + k) (blo + j + k) (drop (i + k) xs) (drop (j + k) ys) else []"
    have l: "sum_list (map (\<lambda>t. snd (snd t)) ?l) \<le> min i j"
    proof (cases "0 < i \<and> 0 < j")
      case True
      with "1.IH"(1) [OF f [symmetric] refl kpos True] b show ?thesis by simp
    next
      case False then show ?thesis by auto
    qed
    have r: "sum_list (map (\<lambda>t. snd (snd t)) ?r) \<le> min (length xs - (i + k)) (length ys - (j + k))"
    proof (cases "i + k < length xs \<and> j + k < length ys")
      case True
      with "1.IH"(2) [OF f [symmetric] refl kpos True] show ?thesis by simp
    next
      case False then show ?thesis by auto
    qed
    define L where "L = sum_list (map (\<lambda>t. snd (snd t)) ?l)"
    define R where "R = sum_list (map (\<lambda>t. snd (snd t)) ?r)"
    have "blocks P alo blo xs ys = ?l @ [(alo + i, blo + j, k)] @ ?r"
      using f kpos by (simp add: blocks.simps [of P alo blo xs ys])
    then have "sum_list (map (\<lambda>t. snd (snd t)) (blocks P alo blo xs ys)) = L + k + R"
      by (simp add: L_def R_def)
    moreover from l have "L \<le> i" "L \<le> j" by (simp_all add: L_def)
    moreover from r have "R \<le> length xs - (i + k)" "R \<le> length ys - (j + k)"
      by (simp_all add: R_def)
    ultimately show ?thesis using b by (simp, arith)
  qed
qed

lemma collapse_sum:
  "sum_list (map (\<lambda>t. snd (snd t)) (collapse c bs)) = snd (snd c) + sum_list (map (\<lambda>t. snd (snd t)) bs)"
  by (induction c bs rule: collapse.induct) auto

lemma matches_le:
  "sum_list (map (\<lambda>t. snd (snd t)) (get_matching_blocks a b)) \<le> min (length a) (length b)"
  using blocks_sum [of "popular b" 0 0 a b] by (simp add: get_matching_blocks_def collapse_sum)

lemma ratio_range: "0 \<le> ratio a b \<and> ratio a b \<le> 1"
proof -
  let ?m = "sum_list (map (\<lambda>t. snd (snd t)) (get_matching_blocks a b))"
  have "2 * ?m \<le> length a + length b" using matches_le [of a b] by simp
  then have "(2 * of_nat ?m :: rat) \<le> of_nat (length a + length b)"
    by (metis of_nat_le_iff of_nat_mult of_nat_numeral)
  then show ?thesis by (simp add: ratio_def Let_def divide_le_eq)
qed

lemma product_Nil2: "List.product xs [] = []"
  by (induction xs) auto

lemma find_longest_match_empty:
  "find_longest_match P [] ys = (0, 0, 0)" "find_longest_match P xs [] = (0, 0, 0)"
  by (simp_all add: find_longest_match_def longest_plain_def product_Nil2)

lemma blocks_empty: "blocks P alo blo [] ys = []" "blocks P alo blo xs [] = []"
  by (simp_all add: blocks.simps [of P alo blo "[]" ys] blocks.simps [of P alo blo xs "[]"]
      find_longest_match_empty)

lemma ratio_one_empty:
  "b \<noteq> [] \<Longrightarrow> ratio [] b = 0" "a \<noteq> [] \<Longrightarrow> ratio a [] = 0"
  by (simp_all add: ratio_def get_matching_blocks_def blocks_empty)

lemma ratio_both_empty: "ratio [] [] = 1"
  by (simp add: ratio_def)

subsection \<open>Identical sequences\<close>















subsection \<open>Reading and comparing files\<close>

lemma concat_keep_ends: "concat (keep_ends t) = t"
  by (induction t rule: keep_ends.induct) (auto split: list.splits)

lemma universal_newlines_Nil: "universal_newlines c = [] \<longleftrightarrow> c = []"
  by (cases c) (auto split: list.splits)



lemma concat_readlines_Nil: "concat (readlines c) = [] \<longleftrightarrow> c = []"
  by (simp add: readlines_def concat_keep_ends universal_newlines_Nil)







lemma compare_versions_Inr:
  assumes "compare_versions vid1 vid2 s = (Inr r, s')"
  shows "\<exists>V1 V2 c1 c2.
           find_version (versions (mem s)) vid1 = Some V1 \<and>
           find_version (versions (mem s)) vid2 = Some V2 \<and>
           live s' (file_path V1) = Some c1 \<and> live s' (file_path V2) = Some c2 \<and>
           similarity r = ratio (concat (readlines c1)) (concat (readlines c2)) * 100"
  using assms
  by (auto simp: compare_versions_def Let_def split: option.splits if_splits)


subsection \<open>Blocks lie in order\<close>






subsection \<open>Counting the lines of a diff\<close>
























section \<open>Claims\<close>

text \<open>
  C1. In every ledger whose identifiers are unique, a successful \<open>activate(X)\<close> leaves
  exactly one version with \<open>active = True\<close>, and that version is \<open>X\<close>; and no sequence
  of operations started with at most one active version ever leaves two. Unique
  identifiers are the invariant of the data model: the empty ledger has it
  (\<open>ledger_inv_empty\<close>) and every operation keeps it, so it holds in every ledger the
  controller builds.
\<close>

theorem single_active_version:
  assumes "unique_ids (mem s)"
  shows "(activate_version H X s = (Inr (), s') \<longrightarrow>
            (\<exists>v. active_versions (mem s') = [v] \<and> version_id v = X)) \<and>
         (length (active_versions (mem s)) \<le> 1 \<longrightarrow>
            length (active_versions (mem (foldl (run H) s ops))) \<le> 1 \<and>
            unique_ids (mem (foldl (run H) s ops)))"
proof -
  have a: "activate_version H X s = (Inr (), s') \<longrightarrow>
            (\<exists>v. active_versions (mem s') = [v] \<and> version_id v = X)"
  proof
    assume h: "activate_version H X s = (Inr (), s')"
    from activate_success [OF assms h] obtain v where
      f: "find_version (versions (mem s)) X = Some v"
      and e: "active_versions (mem s') = [v\<lparr>active := True\<rparr>]" by blast
    from find_version_Some [OF f] have "version_id (v\<lparr>active := True\<rparr>) = X" by simp
    with e show "\<exists>v. active_versions (mem s') = [v] \<and> version_id v = X" by blast
  qed
  have b: "length (active_versions (mem s)) \<le> 1 \<longrightarrow>
            length (active_versions (mem (foldl (run H) s ops))) \<le> 1 \<and>
            unique_ids (mem (foldl (run H) s ops))"
  proof
    assume "length (active_versions (mem s)) \<le> 1"
    with assms have "ledger_inv (mem s)" by (simp add: ledger_inv_def)
    then have "ledger_inv (mem (foldl (run H) s ops))" by (rule run_all_inv)
    then show "length (active_versions (mem (foldl (run H) s ops))) \<le> 1 \<and>
            unique_ids (mem (foldl (run H) s ops))"
      by (simp add: ledger_inv_def)
  qed
  from a b show ?thesis ..
qed

text \<open>
  The theorem on the controller of \<^verbatim>\<open>main()\<close>: activating its first version, and a run
  of six operations.
\<close>

theorem single_active_version_witness:
  "unique_ids (mem created) \<and>
   fst (activate_version toy_digest ''v1.0.0'' created) = Inr () \<and>
   (\<exists>v. active_versions (mem (snd (activate_version toy_digest ''v1.0.0'' created))) = [v] \<and>
        version_id v = ''v1.0.0'') \<and>
   length (active_versions (mem created)) \<le> 1 \<and>
   length (active_versions (mem (foldl (run toy_digest) created
      [Activate ''v1.0.0'', Create ''core_standards.md'' ''second'' ''minor'',
       Activate ''v1.1.0'', MarkStable ''v1.0.0'', Compare ''v1.0.0'' ''v1.1.0'',
       RollbackToLastStable]))) \<le> 1"
proof -
  have u: "unique_ids (mem created)" by code_simp
  have f: "fst (activate_version toy_digest ''v1.0.0'' created) = Inr ()" by code_simp
  then have e: "activate_version toy_digest ''v1.0.0'' created =
      (Inr (), snd (activate_version toy_digest ''v1.0.0'' created))"
    by (simp add: prod_eq_iff)
  have l: "length (active_versions (mem created)) \<le> 1" by code_simp
  from single_active_version [OF u, of toy_digest "''v1.0.0''"
      "snd (activate_version toy_digest ''v1.0.0'' created)"
      "[Activate ''v1.0.0'', Create ''core_standards.md'' ''second'' ''minor'',
       Activate ''v1.1.0'', MarkStable ''v1.0.0'', Compare ''v1.0.0'' ''v1.1.0'',
       RollbackToLastStable]"] u f e l
  show ?thesis by simp
qed

text \<open>
  C2. For every version \<open>V\<close> of a ledger with unique identifiers, \<open>activate\<close> of V's
  identifier raises VersionIntegrityError exactly when the live file at V's path is missing
  or its digest differs from V's stored hash, and then the whole world, the active flags
  with it, is as before. In particular, after creating a version from content \<open>C\<close> and
  changing the live file to a content \<open>C'\<close> with a different digest, activating that
  version raises VersionIntegrityError.
\<close>

theorem integrity_gate:
  assumes "unique_ids (mem s)" and "V \<in> set (versions (mem s))"
  shows "(fst (activate_version H (version_id V) s) = Inl VersionIntegrityError \<longleftrightarrow>
            (live s (file_path V) = None \<or>
             (\<exists>content. live s (file_path V) = Some content \<and> H content \<noteq> hash V))) \<and>
         (fst (activate_version H (version_id V) s) = Inl VersionIntegrityError \<longrightarrow>
            snd (activate_version H (version_id V) s) = s) \<and>
         (create_version H p d t w = (Inr nv, w') \<and> live w p = Some C \<and> H C' \<noteq> H C \<longrightarrow>
            activate_version H (version_id nv) (w'\<lparr>live := (live w')(p \<mapsto> C')\<rparr>) =
              (Inl VersionIntegrityError, w'\<lparr>live := (live w')(p \<mapsto> C')\<rparr>))"
proof -
  from assms have f: "find_version (versions (mem s)) (version_id V) = Some V"
    by (simp add: unique_ids_def find_version_unique)
  have a: "fst (activate_version H (version_id V) s) = Inl VersionIntegrityError \<longleftrightarrow>
            (live s (file_path V) = None \<or>
             (\<exists>content. live s (file_path V) = Some content \<and> H content \<noteq> hash V))"
    using f by (auto simp: activate_version_def verify_version_integrity_def Let_def
        split: option.splits)
  have b: "fst (activate_version H (version_id V) s) = Inl VersionIntegrityError \<longrightarrow>
            snd (activate_version H (version_id V) s) = s"
    using f by (auto simp: activate_version_def Let_def)
  have c: "create_version H p d t w = (Inr nv, w') \<and> live w p = Some C \<and> H C' \<noteq> H C \<longrightarrow>
            activate_version H (version_id nv) (w'\<lparr>live := (live w')(p \<mapsto> C')\<rparr>) =
              (Inl VersionIntegrityError, w'\<lparr>live := (live w')(p \<mapsto> C')\<rparr>)"
  proof
    assume h: "create_version H p d t w = (Inr nv, w') \<and> live w p = Some C \<and> H C' \<noteq> H C"
    then have cv: "create_version H p d t w = (Inr nv, w')" by simp
    from create_version_Inr [OF cv] h have nx: "next_version_id (mem w) t = Inr (version_id nv)"
      and vs: "versions (mem w') = versions (mem w) @ [nv]"
      and hv: "hash nv = H C" and fp: "file_path nv = p" by auto
    from next_version_id_greater [OF nx] have "version_id nv \<notin> version_id ` set (versions (mem w))"
      by force
    then have "find_version (versions (mem w')) (version_id nv) = Some nv"
      using vs by (simp add: find_version_snoc)
    with hv fp h show "activate_version H (version_id nv) (w'\<lparr>live := (live w')(p \<mapsto> C')\<rparr>) =
              (Inl VersionIntegrityError, w'\<lparr>live := (live w')(p \<mapsto> C')\<rparr>)"
      by (simp add: activate_version_def verify_version_integrity_def)
  qed
  from a b c show ?thesis by blast
qed

text \<open>The theorem on the first version of \<^verbatim>\<open>main()\<close>, after the artifact was edited.\<close>

theorem integrity_gate_witness:
  "unique_ids (mem (created\<lparr>live := (live created)(''core_standards.md'' \<mapsto> ''changed'')\<rparr>)) \<and>
   first_version \<in> set (versions (mem (created\<lparr>live := (live created)(''core_standards.md'' \<mapsto> ''changed'')\<rparr>))) \<and>
   create_version toy_digest ''core_standards.md'' ''initial'' ''major'' fresh = (Inr first_version, created) \<and>
   live fresh ''core_standards.md'' = Some ''rules'' \<and> toy_digest ''changed'' \<noteq> toy_digest ''rules'' \<and>
   activate_version toy_digest ''v1.0.0'' (created\<lparr>live := (live created)(''core_standards.md'' \<mapsto> ''changed'')\<rparr>)
     = (Inl VersionIntegrityError, created\<lparr>live := (live created)(''core_standards.md'' \<mapsto> ''changed'')\<rparr>)"
proof -
  let ?s = "created\<lparr>live := (live created)(''core_standards.md'' \<mapsto> ''changed'')\<rparr>"
  have u: "unique_ids (mem ?s)" by code_simp
  have v: "first_version \<in> set (versions (mem ?s))" by code_simp
  have "fst (create_version toy_digest ''core_standards.md'' ''initial'' ''major'' fresh) = Inr first_version"
    by code_simp
  then have c: "create_version toy_digest ''core_standards.md'' ''initial'' ''major'' fresh = (Inr first_version, created)"
    by (simp add: prod_eq_iff created_def)
  have l: "live fresh ''core_standards.md'' = Some ''rules''" by (simp add: fresh_def)
  have h: "toy_digest ''changed'' \<noteq> toy_digest ''rules''" by (simp add: toy_digest_def)
  have i: "version_id first_version = ''v1.0.0''" by (simp add: first_version_def)
  from integrity_gate [where H = toy_digest and p = "''core_standards.md''" and d = "''initial''"
      and t = "''major''" and w = fresh and nv = first_version and w' = created
      and C = "''rules''" and C' = "''changed''", OF u v] c l h i
  show ?thesis using u v by simp
qed




text \<open>
  C4, as the code has it. \<^verbatim>\<open>_increment_version\<close> does semantic-version arithmetic on the
  first three parts of the parsed identifier (missing parts count as zero): major gives
  \<open>(m+1, 0, 0)\<close>, minor \<open>(m, n+1, 0)\<close>, patch \<open>(m, n, p+1)\<close>. It renders the result with
  the prefix \<open>v\<close>: from \<open>1.2.3\<close> a minor increment returns \<open>v1.3.0\<close>, from \<open>2.0.0\<close> a
  patch increment returns \<open>v2.0.1\<close>. For every sequence of create calls from any ledger
  and world, the identifiers assigned parse to integer lists that are strictly increasing
  in the lexicographic order, each is greater than every identifier the ledger held at
  the start, and no two are equal.
\<close>

theorem semver_increment_monotone:
  "(version_key v = Inr k \<and> take 3 (pad3 k) = [m, n, p] \<longrightarrow>
      (\<exists>v'. increment_version v ''major'' = Inr v' \<and> version_key v' = Inr [m + 1, 0, 0]) \<and>
      (\<exists>v'. increment_version v ''minor'' = Inr v' \<and> version_key v' = Inr [m, n + 1, 0]) \<and>
      (\<exists>v'. increment_version v ''patch'' = Inr v' \<and> version_key v' = Inr [m, n, p + 1])) \<and>
   increment_version ''1.2.3'' ''minor'' = Inr ''v1.3.0'' \<and>
   increment_version ''2.0.0'' ''patch'' = Inr ''v2.0.1'' \<and>
   (\<exists>ks. map version_key (fst (create_all H calls s)) = map Inr ks \<and> sorted_wrt (<) ks \<and>
      (\<forall>k\<in>set ks. \<forall>u\<in>set (versions (mem s)).
          \<exists>ku. version_key (version_id u) = Inr ku \<and> ku < k)) \<and>
   distinct (fst (create_all H calls s))"
proof -
  have a: "version_key v = Inr k \<and> take 3 (pad3 k) = [m, n, p] \<longrightarrow>
      (\<exists>v'. increment_version v ''major'' = Inr v' \<and> version_key v' = Inr [m + 1, 0, 0]) \<and>
      (\<exists>v'. increment_version v ''minor'' = Inr v' \<and> version_key v' = Inr [m, n + 1, 0]) \<and>
      (\<exists>v'. increment_version v ''patch'' = Inr v' \<and> version_key v' = Inr [m, n, p + 1])"
  proof
    assume h: "version_key v = Inr k \<and> take 3 (pad3 k) = [m, n, p]"
    then have "take 3 (pad3 k) ! 0 = m" "take 3 (pad3 k) ! 1 = n" "take 3 (pad3 k) ! 2 = p"
      by simp_all
    then have "pad3 k ! 0 = m" "pad3 k ! 1 = n" "pad3 k ! 2 = p" by simp_all
    with h show "(\<exists>v'. increment_version v ''major'' = Inr v' \<and> version_key v' = Inr [m + 1, 0, 0]) \<and>
      (\<exists>v'. increment_version v ''minor'' = Inr v' \<and> version_key v' = Inr [m, n + 1, 0]) \<and>
      (\<exists>v'. increment_version v ''patch'' = Inr v' \<and> version_key v' = Inr [m, n, p + 1])"
      by (simp add: increment_version_def version_key_fmt)
  qed
  have b: "increment_version ''1.2.3'' ''minor'' = Inr ''v1.3.0''" by code_simp
  have c: "increment_version ''2.0.0'' ''patch'' = Inr ''v2.0.1''" by code_simp
  from create_all_increasing [of H calls s] obtain ks where
    ks: "map version_key (fst (create_all H calls s)) = map Inr ks" "sorted_wrt (<) ks"
      "\<forall>k\<in>set ks. \<forall>u\<in>set (versions (mem s)). \<exists>ku. version_key (version_id u) = Inr ku \<and> ku < k"
    by blast
  have d: "distinct (fst (create_all H calls s))" using key_sorted_distinct ks(1,2) by blast
  from a b c ks d show ?thesis by blast
qed

text \<open>
  The theorem at a ledger that already holds the two-part identifier \<open>v0.9\<close>: a minor
  and then a major create are assigned \<open>v0.10.0\<close> and \<open>v1.0.0\<close>.
\<close>

theorem semver_increment_monotone_witness:
  "version_key ''v0.9'' = Inr [0, 9] \<and> take 3 (pad3 [0, 9]) = [0, 9, 0] \<and>
   (\<exists>v'. increment_version ''v0.9'' ''minor'' = Inr v' \<and> version_key v' = Inr [0, 10, 0]) \<and>
   fst (create_all toy_digest
         [(''core_standards.md'', ''first'', ''minor''), (''core_standards.md'', ''second'', ''major'')]
         (fresh\<lparr>mem := \<lparr>versions = [\<lparr>version_id = ''v0.9'', timestamp = 0,
              file_path = ''core_standards.md'', hash = ''rules'', description = ''old'',
              active = False, stable = False, compatibility = []\<rparr>], history = None\<rparr>\<rparr>))
     = [''v0.10.0'', ''v1.0.0''] \<and>
   (\<exists>ks. map version_key [''v0.10.0'', ''v1.0.0''] = map Inr ks \<and> sorted_wrt (<) ks \<and>
      (\<forall>k\<in>set ks. [0, 9] < k))"
proof -
  let ?s = "fresh\<lparr>mem := \<lparr>versions = [\<lparr>version_id = ''v0.9'', timestamp = 0,
              file_path = ''core_standards.md'', hash = ''rules'', description = ''old'',
              active = False, stable = False, compatibility = []\<rparr>], history = None\<rparr>\<rparr>"
  let ?calls = "[(''core_standards.md'', ''first'', ''minor''), (''core_standards.md'', ''second'', ''major'')]"
  have k: "version_key ''v0.9'' = Inr [0, 9]" by code_simp
  have t: "take 3 (pad3 [0, 9]) = [0, 9, 0]" by (simp add: pad3_def)
  have ids: "fst (create_all toy_digest ?calls ?s) = [''v0.10.0'', ''v1.0.0'']" by code_simp
  have vs: "versions (mem ?s) = [\<lparr>version_id = ''v0.9'', timestamp = 0,
              file_path = ''core_standards.md'', hash = ''rules'', description = ''old'',
              active = False, stable = False, compatibility = []\<rparr>]" by simp
  from semver_increment_monotone [of "''v0.9''" "[0, 9]" 0 9 0 toy_digest ?calls ?s] k t ids vs
  show ?thesis by simp
qed

text \<open>
  C4 as stated fails on its own example: the increment of \<open>1.2.3\<close> is not the string
  \<open>1.3.0\<close>.
\<close>

theorem increment_literal_counterexample:
  "increment_version ''1.2.3'' ''minor'' \<noteq> Inr ''1.3.0''"
  by code_simp

text \<open>
  C5, as the code has it. After \<open>create\<close>, \<open>activate\<close> and \<open>mark_stable\<close> return and the
  write of the ledger file went through, the file holds the whole ledger in memory, the
  history entry of that operation last. What an operation returns does not depend on
  whether the write goes through: a failed write is logged and not raised.
\<close>

theorem persist_when_writable:
  "(create_version H p d t s = (Inr nv, s') \<and> save_ok s \<longrightarrow>
      version_file s' = Some (Document (mem s')) \<and>
      (\<exists>h. history (mem s') = Some (h @ [\<lparr>action = ''create'', entry_version_id = version_id nv,
          entry_timestamp = clock s, user = get_current_user s\<rparr>]))) \<and>
   (activate_version H X s = (Inr (), s') \<and> save_ok s \<longrightarrow>
      version_file s' = Some (Document (mem s')) \<and>
      (\<exists>h. history (mem s') = Some (h @ [\<lparr>action = ''activate'', entry_version_id = X,
          entry_timestamp = clock s, user = get_current_user s\<rparr>]))) \<and>
   (mark_as_stable X s = (Inr (), s') \<and> save_ok s \<longrightarrow>
      version_file s' = Some (Document (mem s')) \<and>
      (\<exists>h. history (mem s') = Some (h @ [\<lparr>action = ''mark_stable'', entry_version_id = X,
          entry_timestamp = clock s, user = get_current_user s\<rparr>]))) \<and>
   fst (create_version H p d t (s\<lparr>save_ok := False\<rparr>)) = fst (create_version H p d t (s\<lparr>save_ok := True\<rparr>)) \<and>
   fst (activate_version H X (s\<lparr>save_ok := False\<rparr>)) = fst (activate_version H X (s\<lparr>save_ok := True\<rparr>)) \<and>
   fst (mark_as_stable X (s\<lparr>save_ok := False\<rparr>)) = fst (mark_as_stable X (s\<lparr>save_ok := True\<rparr>))"
proof -
  have c: "create_version H p d t s = (Inr nv, s') \<and> save_ok s \<longrightarrow>
      version_file s' = Some (Document (mem s')) \<and>
      (\<exists>h. history (mem s') = Some (h @ [\<lparr>action = ''create'', entry_version_id = version_id nv,
          entry_timestamp = clock s, user = get_current_user s\<rparr>]))"
    by (auto simp: create_version_def Let_def record_action_def add_history_def
        save_versions_def backup_version_def get_current_user_def
        split: option.splits sum.splits)
  have a: "activate_version H X s = (Inr (), s') \<and> save_ok s \<longrightarrow>
      version_file s' = Some (Document (mem s')) \<and>
      (\<exists>h. history (mem s') = Some (h @ [\<lparr>action = ''activate'', entry_version_id = X,
          entry_timestamp = clock s, user = get_current_user s\<rparr>]))"
    by (auto simp: activate_version_def Let_def record_action_def add_history_def
        save_versions_def get_current_user_def split: option.splits if_splits)
  have m: "mark_as_stable X s = (Inr (), s') \<and> save_ok s \<longrightarrow>
      version_file s' = Some (Document (mem s')) \<and>
      (\<exists>h. history (mem s') = Some (h @ [\<lparr>action = ''mark_stable'', entry_version_id = X,
          entry_timestamp = clock s, user = get_current_user s\<rparr>]))"
    by (auto simp: mark_as_stable_def Let_def record_action_def add_history_def
        save_versions_def get_current_user_def split: option.splits)
  have r1: "fst (create_version H p d t (s\<lparr>save_ok := False\<rparr>)) = fst (create_version H p d t (s\<lparr>save_ok := True\<rparr>))"
    by (simp add: create_version_def Let_def split: option.splits sum.splits)
  have r2: "fst (activate_version H X (s\<lparr>save_ok := False\<rparr>)) = fst (activate_version H X (s\<lparr>save_ok := True\<rparr>))"
    by (simp add: activate_version_def Let_def verify_version_integrity_def split: option.splits)
  have r3: "fst (mark_as_stable X (s\<lparr>save_ok := False\<rparr>)) = fst (mark_as_stable X (s\<lparr>save_ok := True\<rparr>))"
    by (simp add: mark_as_stable_def Let_def split: option.splits)
  from c a m r1 r2 r3 show ?thesis by blast
qed

text \<open>The theorem on activating the first version of \<^verbatim>\<open>main()\<close>.\<close>

theorem persist_when_writable_witness:
  "save_ok created \<and>
   fst (activate_version toy_digest ''v1.0.0'' created) = Inr () \<and>
   version_file (snd (activate_version toy_digest ''v1.0.0'' created)) =
     Some (Document (mem (snd (activate_version toy_digest ''v1.0.0'' created)))) \<and>
   (\<exists>h. history (mem (snd (activate_version toy_digest ''v1.0.0'' created))) =
      Some (h @ [\<lparr>action = ''activate'', entry_version_id = ''v1.0.0'',
          entry_timestamp = 0, user = ''unknown''\<rparr>]))"
proof -
  have s: "save_ok created" by code_simp
  have r: "fst (activate_version toy_digest ''v1.0.0'' created) = Inr ()" by code_simp
  then have a: "activate_version toy_digest ''v1.0.0'' created =
      (Inr (), snd (activate_version toy_digest ''v1.0.0'' created))"
    by (simp add: prod_eq_iff)
  have c: "clock created = 0" "get_current_user created = ''unknown''" by code_simp+
  from persist_when_writable [of toy_digest "''core_standards.md''" "''initial''" "''major''" created
      first_version "snd (activate_version toy_digest ''v1.0.0'' created)" "''v1.0.0''"] s a
  have "version_file (snd (activate_version toy_digest ''v1.0.0'' created)) =
     Some (Document (mem (snd (activate_version toy_digest ''v1.0.0'' created)))) \<and>
   (\<exists>h. history (mem (snd (activate_version toy_digest ''v1.0.0'' created))) =
      Some (h @ [\<lparr>action = ''activate'', entry_version_id = ''v1.0.0'',
          entry_timestamp = clock created, user = get_current_user created\<rparr>]))"
    by blast
  with s r c show ?thesis by simp
qed

text \<open>
  C5 as stated fails when the ledger file cannot be written: \<open>activate\<close> returns and
  the file differs from the ledger in memory. It fails for \<open>rollback\<close> even when every
  write goes through: the \<open>rollback\<close> history entry is appended after the last save.
\<close>

theorem persist_swallowed_counterexample:
  "fst (activate_version toy_digest ''v1.0.0'' (created\<lparr>save_ok := False\<rparr>)) = Inr () \<and>
   version_file (snd (activate_version toy_digest ''v1.0.0'' (created\<lparr>save_ok := False\<rparr>))) \<noteq>
     Some (Document (mem (snd (activate_version toy_digest ''v1.0.0'' (created\<lparr>save_ok := False\<rparr>))))) \<and>
   fst (rollback_to_version toy_digest ''v1.0.0'' created) = Inr () \<and>
   version_file (snd (rollback_to_version toy_digest ''v1.0.0'' created)) \<noteq>
     Some (Document (mem (snd (rollback_to_version toy_digest ''v1.0.0'' created))))"
  by code_simp

text \<open>
  C6, as the code has it. With no stable version \<open>rollback_to_last_stable\<close> returns
  \<open>None\<close> and changes nothing. With stable versions whose identifiers all parse it
  picks a stable version whose key is greatest among the stable ones and is the call of
  \<open>rollback_to_version\<close> on it, returning its identifier when that call returns. With
  stable \<open>1.0.0\<close> and \<open>2.1.0\<close> and non-stable \<open>3.0.0\<close> it returns \<open>2.1.0\<close>.
\<close>

theorem last_stable_selection:
  "(get_stable_versions (mem s) = [] \<longrightarrow> rollback_to_last_stable H s = (Inr None, s)) \<and>
   (get_stable_versions (mem s) \<noteq> [] \<and>
    (\<forall>u\<in>set (get_stable_versions (mem s)). \<exists>k. version_key (version_id u) = Inr k) \<longrightarrow>
      (\<exists>v k. v \<in> set (versions (mem s)) \<and> stable v \<and> version_key (version_id v) = Inr k \<and>
         (\<forall>u\<in>set (versions (mem s)). stable u \<longrightarrow>
             (\<exists>ku. version_key (version_id u) = Inr ku \<and> ku \<le> k)) \<and>
         rollback_to_last_stable H s =
           (case rollback_to_version H (version_id v) s of
              (Inl e, s1) \<Rightarrow> (Inl e, s1)
            | (Inr u, s1) \<Rightarrow> (Inr (Some (version_id v)), s1)))) \<and>
   fst (rollback_to_last_stable toy_digest three_versions) = Inr (Some ''2.1.0'')"
proof -
  have a: "get_stable_versions (mem s) = [] \<longrightarrow> rollback_to_last_stable H s = (Inr None, s)"
    by (simp add: rollback_to_last_stable_def)
  have b: "get_stable_versions (mem s) \<noteq> [] \<and>
    (\<forall>u\<in>set (get_stable_versions (mem s)). \<exists>k. version_key (version_id u) = Inr k) \<longrightarrow>
      (\<exists>v k. v \<in> set (versions (mem s)) \<and> stable v \<and> version_key (version_id v) = Inr k \<and>
         (\<forall>u\<in>set (versions (mem s)). stable u \<longrightarrow>
             (\<exists>ku. version_key (version_id u) = Inr ku \<and> ku \<le> k)) \<and>
         rollback_to_last_stable H s =
           (case rollback_to_version H (version_id v) s of
              (Inl e, s1) \<Rightarrow> (Inl e, s1)
            | (Inr u, s1) \<Rightarrow> (Inr (Some (version_id v)), s1)))"
  proof
    assume h: "get_stable_versions (mem s) \<noteq> [] \<and>
      (\<forall>u\<in>set (get_stable_versions (mem s)). \<exists>k. version_key (version_id u) = Inr k)"
    let ?st = "get_stable_versions (mem s)"
    from h newest_total [of ?st] obtain v where n: "newest ?st = Inr v" by blast
    from newest_max [OF n] obtain k where vin: "v \<in> set ?st"
      and kv: "version_key (version_id v) = Inr k"
      and mx: "\<forall>u\<in>set ?st. \<exists>ku. version_key (version_id u) = Inr ku \<and> ku \<le> k" by blast
    from vin have 1: "v \<in> set (versions (mem s))" "stable v" by (simp_all add: get_stable_versions_def)
    from mx have 2: "\<forall>u\<in>set (versions (mem s)). stable u \<longrightarrow>
             (\<exists>ku. version_key (version_id u) = Inr ku \<and> ku \<le> k)"
      by (simp add: get_stable_versions_def)
    from h n have 3: "rollback_to_last_stable H s =
           (case rollback_to_version H (version_id v) s of
              (Inl e, s1) \<Rightarrow> (Inl e, s1)
            | (Inr u, s1) \<Rightarrow> (Inr (Some (version_id v)), s1))"
      by (simp add: rollback_to_last_stable_def)
    from 1 2 3 kv show "\<exists>v k. v \<in> set (versions (mem s)) \<and> stable v \<and> version_key (version_id v) = Inr k \<and>
         (\<forall>u\<in>set (versions (mem s)). stable u \<longrightarrow>
             (\<exists>ku. version_key (version_id u) = Inr ku \<and> ku \<le> k)) \<and>
         rollback_to_last_stable H s =
           (case rollback_to_version H (version_id v) s of
              (Inl e, s1) \<Rightarrow> (Inl e, s1)
            | (Inr u, s1) \<Rightarrow> (Inr (Some (version_id v)), s1))" by blast
  qed
  have c: "fst (rollback_to_last_stable toy_digest three_versions) = Inr (Some ''2.1.0'')"
    by code_simp
  from a b c show ?thesis by blast
qed

text \<open>The theorem on the fresh controller and on the ledger of three versions.\<close>

theorem last_stable_selection_witness:
  "get_stable_versions (mem fresh) = [] \<and>
   rollback_to_last_stable toy_digest fresh = (Inr None, fresh) \<and>
   map (\<lambda>u. version_key (version_id u)) (get_stable_versions (mem three_versions)) =
     [Inr [1, 0, 0], Inr [2, 1, 0]] \<and>
   (\<exists>v k. v \<in> set (versions (mem three_versions)) \<and> stable v \<and>
      version_key (version_id v) = Inr k \<and>
      (\<forall>u\<in>set (versions (mem three_versions)). stable u \<longrightarrow>
             (\<exists>ku. version_key (version_id u) = Inr ku \<and> ku \<le> k)) \<and>
      rollback_to_last_stable toy_digest three_versions =
           (case rollback_to_version toy_digest (version_id v) three_versions of
              (Inl e, s1) \<Rightarrow> (Inl e, s1)
            | (Inr u, s1) \<Rightarrow> (Inr (Some (version_id v)), s1)))"
proof -
  have e: "get_stable_versions (mem fresh) = []" by code_simp
  have k: "map (\<lambda>u. version_key (version_id u)) (get_stable_versions (mem three_versions)) =
     [Inr [1, 0, 0], Inr [2, 1, 0]]" by code_simp
  then have ne: "get_stable_versions (mem three_versions) \<noteq> []" by auto
  have al: "\<forall>u\<in>set (get_stable_versions (mem three_versions)). \<exists>k. version_key (version_id u) = Inr k"
  proof
    fix u assume "u \<in> set (get_stable_versions (mem three_versions))"
    then have "version_key (version_id u) \<in>
       set (map (\<lambda>u. version_key (version_id u)) (get_stable_versions (mem three_versions)))"
      by simp
    with k show "\<exists>k. version_key (version_id u) = Inr k" by auto
  qed
  from last_stable_selection [of fresh toy_digest] e
  have 1: "rollback_to_last_stable toy_digest fresh = (Inr None, fresh)" by blast
  from last_stable_selection [of three_versions toy_digest] ne al
  have 2: "\<exists>v k. v \<in> set (versions (mem three_versions)) \<and> stable v \<and>
      version_key (version_id v) = Inr k \<and>
      (\<forall>u\<in>set (versions (mem three_versions)). stable u \<longrightarrow>
             (\<exists>ku. version_key (version_id u) = Inr ku \<and> ku \<le> k)) \<and>
      rollback_to_last_stable toy_digest three_versions =
           (case rollback_to_version toy_digest (version_id v) three_versions of
              (Inl e, s1) \<Rightarrow> (Inl e, s1)
            | (Inr u, s1) \<Rightarrow> (Inr (Some (version_id v)), s1))"
    by blast
  from e 1 k 2 show ?thesis by blast
qed

text \<open>
  C6 as stated fails on a ledger without stable versions: the call returns normally,
  with \<open>None\<close>, and raises nothing.
\<close>

theorem no_stable_returns_none_counterexample:
  "get_stable_versions (mem fresh) = [] \<and>
   fst (rollback_to_last_stable toy_digest fresh) = Inr None"
  by code_simp

text \<open>
  C7, as the code has it. For every pair of versions that \<open>compare\<close> resolves, the
  similarity it returns is a percentage between 0 and 100; it is 100 when both files are
  empty and 0 when exactly one of them is empty.
\<close>

theorem similarity_percentage:
  "compare_versions vid1 vid2 s = (Inr r, s') \<longrightarrow>
     0 \<le> similarity r \<and> similarity r \<le> 100 \<and>
     (\<exists>V1 V2 c1 c2.
        find_version (versions (mem s)) vid1 = Some V1 \<and>
        find_version (versions (mem s)) vid2 = Some V2 \<and>
        live s' (file_path V1) = Some c1 \<and> live s' (file_path V2) = Some c2 \<and>
        (c1 = [] \<and> c2 = [] \<longrightarrow> similarity r = 100) \<and>
        ((c1 = []) \<noteq> (c2 = []) \<longrightarrow> similarity r = 0))"
proof
  assume "compare_versions vid1 vid2 s = (Inr r, s')"
  from compare_versions_Inr [OF this] obtain V1 V2 c1 c2 where
    f: "find_version (versions (mem s)) vid1 = Some V1" "find_version (versions (mem s)) vid2 = Some V2"
    and l: "live s' (file_path V1) = Some c1" "live s' (file_path V2) = Some c2"
    and r: "similarity r = ratio (concat (readlines c1)) (concat (readlines c2)) * 100"
    by blast
  let ?a = "concat (readlines c1)" and ?b = "concat (readlines c2)"
  from ratio_range [of ?a ?b] r have b: "0 \<le> similarity r" "similarity r \<le> 100" by simp_all
  have e: "c1 = [] \<and> c2 = [] \<longrightarrow> similarity r = 100"
    using r by (auto simp: readlines_def ratio_both_empty)
  have o: "(c1 = []) \<noteq> (c2 = []) \<longrightarrow> similarity r = 0"
  proof
    assume d: "(c1 = []) \<noteq> (c2 = [])"
    define a b where "a = concat (readlines c1)" and "b = concat (readlines c2)"
    have ab: "(a = []) = (c1 = [])" "(b = []) = (c2 = [])"
      unfolding a_def b_def by (rule concat_readlines_Nil)+
    have "ratio a b = 0"
    proof (cases "a = []")
      case True
      with d ab have "b \<noteq> []" by simp
      with True show ?thesis by (simp add: ratio_one_empty)
    next
      case False
      with d ab have "b = []" by simp
      with False show ?thesis by (simp add: ratio_one_empty)
    qed
    with r show "similarity r = 0" by (simp add: a_def b_def)
  qed
  from b f l e o show "0 \<le> similarity r \<and> similarity r \<le> 100 \<and>
     (\<exists>V1 V2 c1 c2.
        find_version (versions (mem s)) vid1 = Some V1 \<and>
        find_version (versions (mem s)) vid2 = Some V2 \<and>
        live s' (file_path V1) = Some c1 \<and> live s' (file_path V2) = Some c2 \<and>
        (c1 = [] \<and> c2 = [] \<longrightarrow> similarity r = 100) \<and>
        ((c1 = []) \<noteq> (c2 = []) \<longrightarrow> similarity r = 0))" by blast
qed

text \<open>The theorem on the two artifacts: their similarity is 75.\<close>

theorem similarity_percentage_witness:
  "\<not> isl (fst (compare_versions ''v1.0.0'' ''v1.1.0'' two_artifacts)) \<and>
   0 \<le> similarity (projr (fst (compare_versions ''v1.0.0'' ''v1.1.0'' two_artifacts))) \<and>
   similarity (projr (fst (compare_versions ''v1.0.0'' ''v1.1.0'' two_artifacts))) \<le> 100 \<and>
   similarity (projr (fst (compare_versions ''v1.0.0'' ''v1.1.0'' two_artifacts))) = 75"
proof -
  let ?x = "compare_versions ''v1.0.0'' ''v1.1.0'' two_artifacts"
  have i: "\<not> isl (fst ?x)" by code_simp
  then have "?x = (Inr (projr (fst ?x)), snd ?x)" by (simp add: prod_eq_iff)
  with similarity_percentage [of "''v1.0.0''" "''v1.1.0''" two_artifacts "projr (fst ?x)" "snd ?x"]
  have b: "0 \<le> similarity (projr (fst ?x)) \<and> similarity (projr (fst ?x)) \<le> 100" by blast
  have v: "similarity (projr (fst ?x)) = 75" by code_simp
  from i b v show ?thesis by simp
qed

text \<open>
  C7 as stated fails: two versions of the same file, and two versions of an empty file,
  have similarity 100, which is neither in the unit interval nor 1.
\<close>

theorem similarity_percentage_counterexample:
  "map_sum id similarity (fst (compare_versions ''v1.0.0'' ''v1.1.0'' two_versions)) = Inr 100 \<and>
   map_sum id similarity (fst (compare_versions ''v1.0.0'' ''v1.1.0''
       (two_versions\<lparr>live := (live two_versions)(''core_standards.md'' \<mapsto> [])\<rparr>))) = Inr 100 \<and>
   \<not> (100 :: rat) \<le> 1"
proof -
  have 1: "map_sum id similarity (fst (compare_versions ''v1.0.0'' ''v1.1.0'' two_versions)) = Inr 100"
    by code_simp
  have 2: "map_sum id similarity (fst (compare_versions ''v1.0.0'' ''v1.1.0''
       (two_versions\<lparr>live := (live two_versions)(''core_standards.md'' \<mapsto> [])\<rparr>))) = Inr 100"
    by code_simp
  from 1 2 show ?thesis by simp
qed

text \<open>
  C8 fails on the code for a ledger file whose bytes are not UTF-8: reading it raises
  UnicodeDecodeError, which \<^verbatim>\<open>_load_versions\<close> does not catch, so the constructor
  raises and nothing is archived.
\<close>

theorem load_undecodable_raises:
  "load_versions (fresh\<lparr>version_file := Some Undecodable\<rparr>) =
     (Inl UnicodeDecodeError, fresh\<lparr>version_file := Some Undecodable\<rparr>) \<and>
   fst (init (fresh\<lparr>version_file := Some Undecodable\<rparr>)) = Inl UnicodeDecodeError \<and>
   archived (snd (init (fresh\<lparr>version_file := Some Undecodable\<rparr>))) = Map.empty"
  by (simp add: load_versions_def init_def fresh_def)






end
